theory Spec2Isabelle
  imports Main "HOL-Library.Word"
begin

unbundle bit_operations_syntax

section \<open>Status and type model\<close>

text \<open>
  The enumerations of \<^verbatim>\<open>behavior_tree.hpp\<close>. \<open>NodeType\<close> is an
  \<^verbatim>\<open>enum class : uint8_t\<close> with six enumerators; \<open>kOutOfRange\<close> stands for any
  other value of the underlying byte, which is what the \<^verbatim>\<open>default:\<close> branch
  of \<^verbatim>\<open>Node::Tick\<close> handles.
\<close>

datatype Status = kSuccess | kFailure | kRunning | kError

datatype NodeType =
  kAction | kCondition | kSequence | kSelector | kParallel | kInverter | kOutOfRange

datatype ParallelPolicy = kRequireAll | kRequireOne

datatype ValidateError =
  kNone | kLeafMissingTick | kInverterNotOneChild | kParallelExceedsBitmap
  | kChildrenExceedMax | kNullChild

definition IsLeafType :: "NodeType \<Rightarrow> bool" where
  "IsLeafType t = (t = kAction \<or> t = kCondition)"

definition IsCompositeType :: "NodeType \<Rightarrow> bool" where
  "IsCompositeType t = (t = kSequence \<or> t = kSelector \<or> t = kParallel)"

section \<open>Nodes\<close>

text \<open>
  A node's data members keep their names without the trailing underscore. A callback
  reads and writes the shared context only (captured state of a
  \<^verbatim>\<open>std::function\<close> is part of the context \<open>'c\<close>), so a tick callback is a
  function from the context to a status and the new context, and a lifecycle callback
  is a function on the context. An unbound callback (\<^verbatim>\<open>nullptr\<close>) is \<open>None\<close>.
  Callbacks that reach the nodes of the tree through the context are the subject of
  the section on the heap, further down.

  The child pointers \<^verbatim>\<open>children_[0 .. children_count_ - 1]\<close> are the list
  \<open>children\<close>, a null pointer being \<open>None\<close>; \<^verbatim>\<open>children_count_\<close> is its
  length. A child is owned by exactly one parent: the node graph is a tree, as the
  construction API and the specification have it, so a child that is ticked is updated
  in place in its parent's list. The counters and indices are \<^verbatim>\<open>uint16_t\<close> in
  the source and never exceed the number of children, which is at most 256; they are
  natural numbers here. The two completion bitmaps are 32-bit words.
\<close>

type_synonym 'c TickFn = "'c \<Rightarrow> Status \<times> 'c"
type_synonym 'c CallbackFn = "'c \<Rightarrow> 'c"

record 'c Members =
  type :: NodeType
  status :: Status
  current_child :: nat
  success_policy :: ParallelPolicy
  child_done_bits :: "32 word"
  child_success_bits :: "32 word"
  tick :: "'c TickFn option"
  on_enter :: "'c CallbackFn option"
  on_exit :: "'c CallbackFn option"
  name :: string

datatype 'c Node = Node (members: "'c Members") (children: "'c Node option list")

definition children_count :: "'c Node \<Rightarrow> nat" where
  "children_count n = length (children n)"

definition kMaxParallelChildren :: nat where
  "kMaxParallelChildren = 32"

text \<open>\<^verbatim>\<open>ChildAt\<close>: bounds-checked child access.\<close>

definition ChildAt :: "'c Node \<Rightarrow> nat \<Rightarrow> 'c Node option" where
  "ChildAt n index = (if index < children_count n then children n ! index else None)"

text \<open>The assignment \<^verbatim>\<open>status_ = s\<close>.\<close>

definition set_status :: "Status \<Rightarrow> 'c Node \<Rightarrow> 'c Node" where
  "set_status s n = Node ((members n)\<lparr>status := s\<rparr>) (children n)"

section \<open>The log of a tick\<close>

text \<open>
  To state which callbacks run and which children are ticked, every tick returns, next
  to its result, a log of what it did. The log is ghost state: nothing reads it. A
  node is named by its path from the node being ticked (the list of child indices, \<open>[]\<close>
  for the node itself). \<open>EvEnter p\<close>, \<open>EvLeaf p\<close> and \<open>EvExit p\<close> record that the
  bound on-enter, tick and on-exit callback of the node at \<open>p\<close> was invoked;
  \<open>EvTick p s\<close> records that \<^verbatim>\<open>Tick\<close> was called on the node at \<open>p\<close> and returned \<open>s\<close>
  (it is logged when the call returns).
\<close>

datatype Event =
  EvEnter "nat list" | EvLeaf "nat list" | EvExit "nat list" | EvTick "nat list" Status

fun path_of :: "Event \<Rightarrow> nat list" where
  "path_of (EvEnter p) = p"
| "path_of (EvLeaf p) = p"
| "path_of (EvExit p) = p"
| "path_of (EvTick p s) = p"

fun at_child :: "nat \<Rightarrow> Event \<Rightarrow> Event" where
  "at_child i (EvEnter p) = EvEnter (i # p)"
| "at_child i (EvLeaf p) = EvLeaf (i # p)"
| "at_child i (EvExit p) = EvExit (i # p)"
| "at_child i (EvTick p s) = EvTick (i # p) s"

type_synonym 'c Outcome = "Status \<times> 'c Node \<times> 'c \<times> Event list"

section \<open>Tick\<close>

text \<open>\<^verbatim>\<open>CallEnter\<close> and \<^verbatim>\<open>CallExit\<close>: call the callback if it is bound.\<close>

definition CallEnter :: "'c Node \<Rightarrow> 'c \<Rightarrow> 'c \<times> Event list" where
  "CallEnter n ctx =
     (case on_enter (members n) of None \<Rightarrow> (ctx, []) | Some f \<Rightarrow> (f ctx, [EvEnter []]))"

definition CallExit :: "'c Node \<Rightarrow> 'c \<Rightarrow> 'c \<times> Event list" where
  "CallExit n ctx =
     (case on_exit (members n) of None \<Rightarrow> (ctx, []) | Some f \<Rightarrow> (f ctx, [EvExit []]))"

text \<open>\<^verbatim>\<open>TickLeaf\<close>.\<close>

definition TickLeaf :: "'c Node \<Rightarrow> 'c \<Rightarrow> 'c Outcome" where
  "TickLeaf n ctx =
     (case tick (members n) of
        None \<Rightarrow> (kError, set_status kError n, ctx, [])
      | Some f \<Rightarrow>
          (case (if status (members n) \<noteq> kRunning then CallEnter n ctx else (ctx, [])) of
             (ctx1, ev1) \<Rightarrow>
               (case f ctx1 of
                  (result, ctx2) \<Rightarrow>
                    (case (if result \<noteq> kRunning then CallExit n ctx2 else (ctx2, [])) of
                       (ctx3, ev3) \<Rightarrow>
                         (result, set_status result n, ctx3, ev1 @ [EvLeaf []] @ ev3)))))"

text \<open>
  The loop of \<^verbatim>\<open>TickSequence\<close>, over the children from index \<open>i\<close> on. The child's
  tick is the parameter \<open>tk\<close> (it is \<open>Tick\<close> itself, below). The loop returns the status
  the sequence resolves to, the new cursor when the source assigns
  \<^verbatim>\<open>current_child_ = i\<close>, the children as they are after the loop, the context
  and the log.
\<close>

fun seq_loop ::
  "('c Node \<Rightarrow> 'c \<Rightarrow> 'c Outcome) \<Rightarrow> 'c Node option list \<Rightarrow> nat \<Rightarrow> 'c
     \<Rightarrow> Status \<times> nat option \<times> 'c Node option list \<times> 'c \<times> Event list" where
  "seq_loop tk [] i ctx = (kSuccess, None, [], ctx, [])"
| "seq_loop tk (None # cs) i ctx = (kError, None, None # cs, ctx, [])"
| "seq_loop tk (Some child # cs) i ctx =
     (case tk child ctx of
        (child_status, child', ctx1, ev1) \<Rightarrow>
          if child_status = kRunning
          then (kRunning, Some i, Some child' # cs, ctx1, map (at_child i) ev1)
          else if child_status \<noteq> kSuccess
          then (child_status, Some i, Some child' # cs, ctx1, map (at_child i) ev1)
          else (case seq_loop tk cs (i + 1) ctx1 of
                  (st, cur, cs', ctx2, ev2) \<Rightarrow>
                    (st, cur, Some child' # cs', ctx2, map (at_child i) ev1 @ ev2)))"

text \<open>
  \<^verbatim>\<open>TickSequence\<close>. Every return of the source with a status other than Running is
  preceded by \<^verbatim>\<open>CallExit\<close>, and the return with Running is not.
\<close>

definition TickSequence ::
  "('c Node \<Rightarrow> 'c \<Rightarrow> 'c Outcome) \<Rightarrow> 'c Node \<Rightarrow> 'c \<Rightarrow> 'c Outcome" where
  "TickSequence tk n ctx =
     (let fresh = (status (members n) \<noteq> kRunning);
          start = (if fresh then 0 else current_child (members n))
      in case (if fresh then CallEnter n ctx else (ctx, [])) of
           (ctx0, ev0) \<Rightarrow>
             (case seq_loop tk (drop start (children n)) start ctx0 of
                (st, cur, cs', ctx1, ev1) \<Rightarrow>
                  (case (if st \<noteq> kRunning then CallExit n ctx1 else (ctx1, [])) of
                     (ctx2, ev2) \<Rightarrow>
                       (st,
                        Node ((members n)\<lparr>status := st,
                                current_child := (case cur of None \<Rightarrow> start | Some i \<Rightarrow> i)\<rparr>)
                             (take start (children n) @ cs'),
                        ctx2, ev0 @ ev1 @ ev2))))"

text \<open>The loop of \<^verbatim>\<open>TickSelector\<close>.\<close>

fun sel_loop ::
  "('c Node \<Rightarrow> 'c \<Rightarrow> 'c Outcome) \<Rightarrow> 'c Node option list \<Rightarrow> nat \<Rightarrow> 'c
     \<Rightarrow> Status \<times> nat option \<times> 'c Node option list \<times> 'c \<times> Event list" where
  "sel_loop tk [] i ctx = (kFailure, None, [], ctx, [])"
| "sel_loop tk (None # cs) i ctx = (kError, None, None # cs, ctx, [])"
| "sel_loop tk (Some child # cs) i ctx =
     (case tk child ctx of
        (child_status, child', ctx1, ev1) \<Rightarrow>
          if child_status = kRunning
          then (kRunning, Some i, Some child' # cs, ctx1, map (at_child i) ev1)
          else if child_status = kSuccess
          then (kSuccess, Some i, Some child' # cs, ctx1, map (at_child i) ev1)
          else if child_status = kError
          then (kError, Some i, Some child' # cs, ctx1, map (at_child i) ev1)
          else (case sel_loop tk cs (i + 1) ctx1 of
                  (st, cur, cs', ctx2, ev2) \<Rightarrow>
                    (st, cur, Some child' # cs', ctx2, map (at_child i) ev1 @ ev2)))"

definition TickSelector ::
  "('c Node \<Rightarrow> 'c \<Rightarrow> 'c Outcome) \<Rightarrow> 'c Node \<Rightarrow> 'c \<Rightarrow> 'c Outcome" where
  "TickSelector tk n ctx =
     (let fresh = (status (members n) \<noteq> kRunning);
          start = (if fresh then 0 else current_child (members n))
      in case (if fresh then CallEnter n ctx else (ctx, [])) of
           (ctx0, ev0) \<Rightarrow>
             (case sel_loop tk (drop start (children n)) start ctx0 of
                (st, cur, cs', ctx1, ev1) \<Rightarrow>
                  (case (if st \<noteq> kRunning then CallExit n ctx1 else (ctx1, [])) of
                     (ctx2, ev2) \<Rightarrow>
                       (st,
                        Node ((members n)\<lparr>status := st,
                                current_child := (case cur of None \<Rightarrow> start | Some i \<Rightarrow> i)\<rparr>)
                             (take start (children n) @ cs'),
                        ctx2, ev0 @ ev1 @ ev2))))"

text \<open>
  The loop of \<^verbatim>\<open>TickParallel\<close>. \<open>par_child\<close> is the loop body for the child at
  index \<open>i\<close>: it takes and returns the two bitmaps and the three counters
  (running, success, failure). The shift \<^verbatim>\<open>1 << i\<close> of a 32-bit value is defined
  in C++ for \<open>i < 32\<close> only; the theorems about Parallel nodes are stated for nodes
  with at most \<open>kMaxParallelChildren\<close> children.
\<close>

type_synonym Counters = "nat \<times> nat \<times> nat"

definition par_child ::
  "('c Node \<Rightarrow> 'c \<Rightarrow> 'c Outcome) \<Rightarrow> 'c Node option \<Rightarrow> nat \<Rightarrow> 32 word \<Rightarrow> 32 word
     \<Rightarrow> Counters \<Rightarrow> 'c
     \<Rightarrow> Counters \<times> 32 word \<times> 32 word \<times> 'c Node option \<times> 'c \<times> Event list" where
  "par_child tk ch i done_bits success_bits cnt ctx =
     (case cnt of
        (running_count, success_count, failure_count) \<Rightarrow>
          (let bit_mask = (push_bit i 1 :: 32 word) in
           if done_bits AND bit_mask \<noteq> 0
           then (if success_bits AND bit_mask \<noteq> 0
                 then ((running_count, success_count + 1, failure_count),
                       done_bits, success_bits, ch, ctx, [])
                 else ((running_count, success_count, failure_count + 1),
                       done_bits, success_bits, ch, ctx, []))
           else (case ch of
                   None \<Rightarrow>
                     ((running_count, success_count, failure_count + 1),
                      done_bits OR bit_mask, success_bits, None, ctx, [])
                 | Some child \<Rightarrow>
                     (case tk child ctx of
                        (child_status, child', ctx1, ev1) \<Rightarrow>
                          if child_status = kRunning
                          then ((running_count + 1, success_count, failure_count),
                                done_bits, success_bits, Some child', ctx1,
                                map (at_child i) ev1)
                          else if child_status = kSuccess
                          then ((running_count, success_count + 1, failure_count),
                                done_bits OR bit_mask, success_bits OR bit_mask,
                                Some child', ctx1, map (at_child i) ev1)
                          else ((running_count, success_count, failure_count + 1),
                                done_bits OR bit_mask, success_bits,
                                Some child', ctx1, map (at_child i) ev1)))))"

fun par_loop ::
  "('c Node \<Rightarrow> 'c \<Rightarrow> 'c Outcome) \<Rightarrow> 'c Node option list \<Rightarrow> nat \<Rightarrow> 32 word \<Rightarrow> 32 word
     \<Rightarrow> Counters \<Rightarrow> 'c
     \<Rightarrow> Counters \<times> 32 word \<times> 32 word \<times> 'c Node option list \<times> 'c \<times> Event list" where
  "par_loop tk [] i done_bits success_bits cnt ctx =
     (cnt, done_bits, success_bits, [], ctx, [])"
| "par_loop tk (ch # cs) i done_bits success_bits cnt ctx =
     (case par_child tk ch i done_bits success_bits cnt ctx of
        (cnt1, done1, success1, ch', ctx1, ev1) \<Rightarrow>
          (case par_loop tk cs (i + 1) done1 success1 cnt1 ctx1 of
             (cnt2, done2, success2, cs', ctx2, ev2) \<Rightarrow>
               (cnt2, done2, success2, ch' # cs', ctx2, ev1 @ ev2)))"

text \<open>The policy evaluation at the end of \<^verbatim>\<open>TickParallel\<close>.\<close>

definition par_policy :: "ParallelPolicy \<Rightarrow> Counters \<Rightarrow> Status" where
  "par_policy policy cnt =
     (case cnt of
        (running_count, success_count, failure_count) \<Rightarrow>
          if policy = kRequireOne
          then (if success_count > 0 then kSuccess
                else if running_count > 0 then kRunning
                else kFailure)
          else (if failure_count > 0 then kFailure
                else if running_count > 0 then kRunning
                else kSuccess))"

definition TickParallel ::
  "('c Node \<Rightarrow> 'c \<Rightarrow> 'c Outcome) \<Rightarrow> 'c Node \<Rightarrow> 'c \<Rightarrow> 'c Outcome" where
  "TickParallel tk n ctx =
     (let fresh = (status (members n) \<noteq> kRunning);
          done0 = (if fresh then 0 else child_done_bits (members n));
          success0 = (if fresh then 0 else child_success_bits (members n))
      in case (if fresh then CallEnter n ctx else (ctx, [])) of
           (ctx0, ev0) \<Rightarrow>
             (case par_loop tk (children n) 0 done0 success0 (0, 0, 0) ctx0 of
                (cnt, done1, success1, cs', ctx1, ev1) \<Rightarrow>
                  (let st = par_policy (success_policy (members n)) cnt
                   in case (if st \<noteq> kRunning then CallExit n ctx1 else (ctx1, [])) of
                        (ctx2, ev2) \<Rightarrow>
                          (st,
                           Node ((members n)\<lparr>status := st, child_done_bits := done1,
                                   child_success_bits := success1\<rparr>) cs',
                           ctx2, ev0 @ ev1 @ ev2))))"

text \<open>\<^verbatim>\<open>TickInverter\<close>.\<close>

definition TickInverter ::
  "('c Node \<Rightarrow> 'c \<Rightarrow> 'c Outcome) \<Rightarrow> 'c Node \<Rightarrow> 'c \<Rightarrow> 'c Outcome" where
  "TickInverter tk n ctx =
     (if children_count n \<noteq> 1 then (kError, set_status kError n, ctx, [])
      else case ChildAt n 0 of
        None \<Rightarrow> (kError, set_status kError n, ctx, [])
      | Some child \<Rightarrow>
          (case (if status (members n) \<noteq> kRunning then CallEnter n ctx else (ctx, [])) of
             (ctx0, ev0) \<Rightarrow>
               (case tk child ctx0 of
                  (child_status, child', ctx1, ev1) \<Rightarrow>
                    (let result = (if child_status = kSuccess then kFailure
                                   else if child_status = kFailure then kSuccess
                                   else child_status)
                     in case (if result \<noteq> kRunning then CallExit n ctx1 else (ctx1, [])) of
                          (ctx2, ev2) \<Rightarrow>
                            (result,
                             Node ((members n)\<lparr>status := result\<rparr>)
                                  ((children n)[0 := Some child']),
                             ctx2, ev0 @ map (at_child 0) ev1 @ ev2)))))"

text \<open>The child's tick is only ever applied to children of the node.\<close>

lemma size_child: "Some c \<in> set (children n) \<Longrightarrow> size c < size n"
proof (cases n)
  case (Node m cs)
  assume "Some c \<in> set (children n)"
  with Node have "Some c \<in> set cs" by simp
  then have "size_option size (Some c) \<le> size_list (size_option size) cs"
    by (rule size_list_estimation') simp
  with Node show ?thesis by simp
qed

lemma seq_loop_eq:
  "(\<And>c x. Some c \<in> set cs \<Longrightarrow> tk c x = tk' c x)
   \<Longrightarrow> seq_loop tk cs i ctx = seq_loop tk' cs i ctx"
proof (induction cs arbitrary: i ctx)
  case Nil
  show ?case by simp
next
  case (Cons ch cs)
  show ?case
  proof (cases ch)
    case None
    then show ?thesis by simp
  next
    case (Some c)
    obtain a b e d where out: "tk' c ctx = (a, b, e, d)"
      by (cases "tk' c ctx") auto
    have head: "tk c ctx = (a, b, e, d)" using Cons.prems Some out by simp
    have rest: "seq_loop tk cs (i + 1) e = seq_loop tk' cs (i + 1) e"
      using Cons.IH Cons.prems by simp
    show ?thesis using Some out head rest by simp
  qed
qed

lemma sel_loop_eq:
  "(\<And>c x. Some c \<in> set cs \<Longrightarrow> tk c x = tk' c x)
   \<Longrightarrow> sel_loop tk cs i ctx = sel_loop tk' cs i ctx"
proof (induction cs arbitrary: i ctx)
  case Nil
  show ?case by simp
next
  case (Cons ch cs)
  show ?case
  proof (cases ch)
    case None
    then show ?thesis by simp
  next
    case (Some c)
    obtain a b e d where out: "tk' c ctx = (a, b, e, d)"
      by (cases "tk' c ctx") auto
    have head: "tk c ctx = (a, b, e, d)" using Cons.prems Some out by simp
    have rest: "sel_loop tk cs (i + 1) e = sel_loop tk' cs (i + 1) e"
      using Cons.IH Cons.prems by simp
    show ?thesis using Some out head rest by simp
  qed
qed

lemma par_child_eq:
  "(\<And>c x. ch = Some c \<Longrightarrow> tk c x = tk' c x)
   \<Longrightarrow> par_child tk ch i d s cnt ctx = par_child tk' ch i d s cnt ctx"
  by (cases ch; cases cnt) (simp_all add: par_child_def Let_def)

lemma par_loop_eq:
  "(\<And>c x. Some c \<in> set cs \<Longrightarrow> tk c x = tk' c x)
   \<Longrightarrow> par_loop tk cs i d s cnt ctx = par_loop tk' cs i d s cnt ctx"
proof (induction cs arbitrary: i d s cnt ctx)
  case Nil
  show ?case by simp
next
  case (Cons ch cs)
  have "par_child tk ch i d s cnt ctx = par_child tk' ch i d s cnt ctx"
    using Cons.prems by (intro par_child_eq) simp
  moreover have "\<And>j d1 s1 c1 x. par_loop tk cs j d1 s1 c1 x = par_loop tk' cs j d1 s1 c1 x"
    using Cons.IH Cons.prems by simp
  ultimately show ?case by simp
qed

lemma TickSequence_cong [fundef_cong]:
  "n = n' \<Longrightarrow> ctx = ctx'
   \<Longrightarrow> (\<And>c x. Some c \<in> set (children n') \<Longrightarrow> tk c x = tk' c x)
   \<Longrightarrow> TickSequence tk n ctx = TickSequence tk' n' ctx'"
proof -
  assume a: "n = n'" "ctx = ctx'" and b: "\<And>c x. Some c \<in> set (children n') \<Longrightarrow> tk c x = tk' c x"
  have "\<And>k j x. seq_loop tk (drop k (children n')) j x = seq_loop tk' (drop k (children n')) j x"
    using b by (intro seq_loop_eq) (auto dest: in_set_dropD)
  then show ?thesis using a by (simp add: TickSequence_def)
qed

lemma TickSelector_cong [fundef_cong]:
  "n = n' \<Longrightarrow> ctx = ctx'
   \<Longrightarrow> (\<And>c x. Some c \<in> set (children n') \<Longrightarrow> tk c x = tk' c x)
   \<Longrightarrow> TickSelector tk n ctx = TickSelector tk' n' ctx'"
proof -
  assume a: "n = n'" "ctx = ctx'" and b: "\<And>c x. Some c \<in> set (children n') \<Longrightarrow> tk c x = tk' c x"
  have "\<And>k j x. sel_loop tk (drop k (children n')) j x = sel_loop tk' (drop k (children n')) j x"
    using b by (intro sel_loop_eq) (auto dest: in_set_dropD)
  then show ?thesis using a by (simp add: TickSelector_def)
qed

lemma TickParallel_cong [fundef_cong]:
  "n = n' \<Longrightarrow> ctx = ctx'
   \<Longrightarrow> (\<And>c x. Some c \<in> set (children n') \<Longrightarrow> tk c x = tk' c x)
   \<Longrightarrow> TickParallel tk n ctx = TickParallel tk' n' ctx'"
proof -
  assume a: "n = n'" "ctx = ctx'" and b: "\<And>c x. Some c \<in> set (children n') \<Longrightarrow> tk c x = tk' c x"
  have "\<And>j d s c x. par_loop tk (children n') j d s c x = par_loop tk' (children n') j d s c x"
    using b by (intro par_loop_eq) auto
  then show ?thesis using a by (simp add: TickParallel_def)
qed

lemma TickInverter_cong [fundef_cong]:
  "n = n' \<Longrightarrow> ctx = ctx'
   \<Longrightarrow> (\<And>c x. Some c \<in> set (children n') \<Longrightarrow> tk c x = tk' c x)
   \<Longrightarrow> TickInverter tk n ctx = TickInverter tk' n' ctx'"
proof -
  assume a: "n = n'" "ctx = ctx'" and b: "\<And>c x. Some c \<in> set (children n') \<Longrightarrow> tk c x = tk' c x"
  have "\<And>c. ChildAt n' 0 = Some c \<Longrightarrow> Some c \<in> set (children n')"
    by (metis ChildAt_def children_count_def nth_mem option.distinct(1))
  then have "\<And>c x. ChildAt n' 0 = Some c \<Longrightarrow> tk c x = tk' c x"
    using b by blast
  then show ?thesis using a by (simp add: TickInverter_def split: option.splits)
qed

text \<open>
  \<^verbatim>\<open>Node::Tick\<close>: the dispatch on the node type. The call logs its own return
  after everything the handler logged.
\<close>

function Tick :: "'c Node \<Rightarrow> 'c \<Rightarrow> 'c Outcome" where
  "Tick n ctx =
     (case (case type (members n) of
              kAction \<Rightarrow> TickLeaf n ctx
            | kCondition \<Rightarrow> TickLeaf n ctx
            | kSequence \<Rightarrow> TickSequence Tick n ctx
            | kSelector \<Rightarrow> TickSelector Tick n ctx
            | kParallel \<Rightarrow> TickParallel Tick n ctx
            | kInverter \<Rightarrow> TickInverter Tick n ctx
            | kOutOfRange \<Rightarrow> (kError, set_status kError n, ctx, []))
      of (st, n', ctx', ev) \<Rightarrow> (st, n', ctx', ev @ [EvTick [] st]))"
  by pat_completeness auto
termination
  by (relation "measure (\<lambda>(n, ctx). size n)") (auto simp: size_child)

declare Tick.simps [simp del]

section \<open>Reset\<close>

text \<open>\<^verbatim>\<open>Node::Reset\<close>: the four assignments, then the loop over the non-null children.\<close>

fun Reset :: "'c Node \<Rightarrow> 'c Node" where
  "Reset (Node m cs) =
     Node (m\<lparr>status := kFailure, current_child := 0,
             child_done_bits := 0, child_success_bits := 0\<rparr>)
          (map (map_option Reset) cs)"

section \<open>Validation\<close>

text \<open>
  \<^verbatim>\<open>Node::Validate\<close>. The capacity \<^verbatim>\<open>kMaxChildren\<close> is the configuration
  macro \<^verbatim>\<open>BT_MAX_CHILDREN\<close> (8 unless the build defines it, at most 256); it is a
  parameter here. \<open>has_null_child\<close> is the loop that looks for a null pointer.
\<close>

fun has_null_child :: "'c Node option list \<Rightarrow> bool" where
  "has_null_child [] = False"
| "has_null_child (None # cs) = True"
| "has_null_child (Some c # cs) = has_null_child cs"

definition Validate :: "nat \<Rightarrow> 'c Node \<Rightarrow> ValidateError" where
  "Validate kMaxChildren n =
     (if children_count n > kMaxChildren then kChildrenExceedMax
      else if has_null_child (children n) then kNullChild
      else if IsLeafType (type (members n)) \<and> tick (members n) = None then kLeafMissingTick
      else if type (members n) = kInverter \<and> children_count n \<noteq> 1 then kInverterNotOneChild
      else if type (members n) = kParallel \<and> children_count n > kMaxParallelChildren
      then kParallelExceedsBitmap
      else kNone)"

text \<open>\<^verbatim>\<open>Node::ValidateTree\<close>; \<open>validate_children\<close> is its loop over the children.\<close>

fun validate_children ::
  "('c Node \<Rightarrow> ValidateError) \<Rightarrow> 'c Node option list \<Rightarrow> ValidateError" where
  "validate_children vt [] = kNone"
| "validate_children vt (None # cs) = validate_children vt cs"
| "validate_children vt (Some c # cs) =
     (let err = vt c in if err \<noteq> kNone then err else validate_children vt cs)"

lemma validate_children_cong [fundef_cong]:
  "cs = cs' \<Longrightarrow> (\<And>c. Some c \<in> set cs' \<Longrightarrow> vt c = vt' c)
   \<Longrightarrow> validate_children vt cs = validate_children vt' cs'"
proof -
  assume a: "cs = cs'" and b: "\<And>c. Some c \<in> set cs' \<Longrightarrow> vt c = vt' c"
  from b have "validate_children vt cs' = validate_children vt' cs'"
  proof (induction cs')
    case Nil
    show ?case by simp
  next
    case (Cons ch cs')
    then show ?case by (cases ch) (simp_all add: Let_def)
  qed
  with a show ?thesis by simp
qed

function ValidateTree :: "nat \<Rightarrow> 'c Node \<Rightarrow> ValidateError" where
  "ValidateTree kMaxChildren n =
     (let err = Validate kMaxChildren n
      in if err \<noteq> kNone then err
         else validate_children (ValidateTree kMaxChildren) (children n))"
  by pat_completeness auto
termination
  by (relation "measure (\<lambda>(k, n). size n)") (auto simp: size_child)

declare ValidateTree.simps [simp del]

section \<open>Construction\<close>

text \<open>
  The constructor and the configuration API, which the examples below use to build
  trees the way the tests of the repository do. \<^verbatim>\<open>AddChild\<close> and
  \<^verbatim>\<open>SetChildren\<close> assert that the capacity is not exceeded; the assertion is
  not part of the model.
\<close>

definition new_Node :: "string \<Rightarrow> 'c Node" where
  "new_Node nm =
     Node \<lparr>type = kAction, status = kFailure, current_child = 0,
            success_policy = kRequireAll, child_done_bits = 0, child_success_bits = 0,
            tick = None, on_enter = None, on_exit = None, name = nm\<rparr> []"

definition set_type :: "NodeType \<Rightarrow> 'c Node \<Rightarrow> 'c Node" where
  "set_type t n = Node ((members n)\<lparr>type := t\<rparr>) (children n)"

definition set_tick :: "'c TickFn \<Rightarrow> 'c Node \<Rightarrow> 'c Node" where
  "set_tick fn n = Node ((members n)\<lparr>tick := Some fn\<rparr>) (children n)"

definition set_on_enter :: "'c CallbackFn \<Rightarrow> 'c Node \<Rightarrow> 'c Node" where
  "set_on_enter fn n = Node ((members n)\<lparr>on_enter := Some fn\<rparr>) (children n)"

definition set_on_exit :: "'c CallbackFn \<Rightarrow> 'c Node \<Rightarrow> 'c Node" where
  "set_on_exit fn n = Node ((members n)\<lparr>on_exit := Some fn\<rparr>) (children n)"

definition set_parallel_policy :: "ParallelPolicy \<Rightarrow> 'c Node \<Rightarrow> 'c Node" where
  "set_parallel_policy policy n = Node ((members n)\<lparr>success_policy := policy\<rparr>) (children n)"

definition AddChild :: "'c Node \<Rightarrow> 'c Node \<Rightarrow> 'c Node" where
  "AddChild child n = Node (members n) (children n @ [Some child])"

definition SetChildren :: "'c Node option list \<Rightarrow> 'c Node \<Rightarrow> 'c Node" where
  "SetChildren cs n = Node (members n) cs"

definition SetChild :: "'c Node \<Rightarrow> 'c Node \<Rightarrow> 'c Node" where
  "SetChild child n = Node (members n) [Some child]"

section \<open>Vocabulary of the statements\<close>

text \<open>
  \<open>node_at n p\<close> is the descendant of \<open>n\<close> at path \<open>p\<close>, if there is one;
  \<open>preorder n\<close> lists the nodes of the subtree of \<open>n\<close> in pre-order;
  \<open>first_error\<close> is the first entry of a list of validation results that is an error.
\<close>

fun node_at :: "'c Node \<Rightarrow> nat list \<Rightarrow> 'c Node option" where
  "node_at n [] = Some n"
| "node_at n (i # p) = (case ChildAt n i of None \<Rightarrow> None | Some c \<Rightarrow> node_at c p)"

fun preorder :: "'c Node \<Rightarrow> 'c Node list" where
  "preorder (Node m cs) =
     Node m cs # concat (map (\<lambda>ch. case ch of None \<Rightarrow> [] | Some c \<Rightarrow> preorder c) cs)"

fun first_error :: "ValidateError list \<Rightarrow> ValidateError" where
  "first_error [] = kNone"
| "first_error (e # es) = (if e \<noteq> kNone then e else first_error es)"

text \<open>
  \<open>own_ticks ev\<close> lists the statuses returned by the calls of \<^verbatim>\<open>Tick\<close> on the node
  itself that the log \<open>ev\<close> records, and \<open>child_ticks ev\<close> lists, in the order of the
  log, the calls of \<^verbatim>\<open>Tick\<close> on its children: the child's index and the status
  the call returned.
\<close>

fun own_tick :: "Event \<Rightarrow> Status list" where
  "own_tick (EvTick [] s) = [s]"
| "own_tick e = []"

definition own_ticks :: "Event list \<Rightarrow> Status list" where
  "own_ticks ev = concat (map own_tick ev)"

fun child_tick :: "Event \<Rightarrow> (nat \<times> Status) list" where
  "child_tick (EvTick [i] s) = [(i, s)]"
| "child_tick e = []"

definition child_ticks :: "Event list \<Rightarrow> (nat \<times> Status) list" where
  "child_ticks ev = concat (map child_tick ev)"


abbreviation out_status :: "'c Outcome \<Rightarrow> Status" where
  "out_status r \<equiv> fst r"


abbreviation out_log :: "'c Outcome \<Rightarrow> Event list" where
  "out_log r \<equiv> snd (snd (snd r))"

text \<open>
  The configuration guard of a node: the checks that \<^verbatim>\<open>Tick\<close> and its handlers
  make before the on-enter callback, and that return Error at once when they fail.
\<close>

definition config_guard :: "'c Node \<Rightarrow> bool" where
  "config_guard n =
     (case type (members n) of
        kAction \<Rightarrow> tick (members n) \<noteq> None
      | kCondition \<Rightarrow> tick (members n) \<noteq> None
      | kSequence \<Rightarrow> True
      | kSelector \<Rightarrow> True
      | kParallel \<Rightarrow> True
      | kInverter \<Rightarrow> children_count n = 1 \<and> ChildAt n 0 \<noteq> None
      | kOutOfRange \<Rightarrow> False)"

text \<open>The log of a handler that passes its guard: on-enter, the work, on-exit.\<close>

definition lifecycle_shape :: "'c Node \<Rightarrow> Status \<Rightarrow> Event list \<Rightarrow> bool" where
  "lifecycle_shape n st ev =
     (\<exists>work. ev = (if status (members n) \<noteq> kRunning \<and> on_enter (members n) \<noteq> None
                    then [EvEnter []] else [])
                 @ work
                 @ (if st \<noteq> kRunning \<and> on_exit (members n) \<noteq> None then [EvExit []] else [])
          \<and> (\<forall>e \<in> set work. e = EvLeaf [] \<or> path_of e \<noteq> []))"

section \<open>Example trees\<close>

text \<open>
  The context of the examples is a counter. \<open>ex_leaf s\<close> is an action whose callback
  returns \<open>s\<close> and counts the call; \<open>ex_unbound\<close> is an action with no tick callback;
  \<open>ex_slow\<close> is an action that returns Running until the counter has reached 2.
  \<open>ex_leaf_cb\<close> and \<open>ex_unbound_cb\<close> are leaves with both lifecycle callbacks bound,
  the first with a tick callback and the second without. The composites are built from
  these the way the tests of the repository build theirs.
\<close>

definition ex_leaf :: "Status \<Rightarrow> nat Node" where
  "ex_leaf s = set_tick (\<lambda>c. (s, c + 1)) (set_type kAction (new_Node ''leaf''))"

definition ex_unbound :: "nat Node" where
  "ex_unbound = set_type kAction (new_Node ''unbound'')"

definition ex_seq_null :: "nat Node" where
  "ex_seq_null =
     SetChildren [Some (ex_leaf kSuccess), None] (set_type kSequence (new_Node ''seq''))"

definition ex_seq_deep :: "nat Node" where
  "ex_seq_deep =
     AddChild ex_unbound (AddChild (ex_leaf kSuccess) (set_type kSequence (new_Node ''seq'')))"

definition ex_slow :: "nat Node" where
  "ex_slow =
     set_tick (\<lambda>c. (if c \<ge> 2 then kSuccess else kRunning, c + 1))
       (set_type kAction (new_Node ''slow''))"


definition ex_sel :: "nat Node" where
  "ex_sel =
     SetChildren [Some (ex_leaf kFailure), Some (ex_leaf kSuccess), Some (ex_leaf kFailure)]
       (set_type kSelector (new_Node ''sel''))"

definition ex_par :: "ParallelPolicy \<Rightarrow> nat Node" where
  "ex_par policy =
     set_parallel_policy policy
       (SetChildren [Some (ex_leaf kSuccess), Some ex_slow]
          (set_type kParallel (new_Node ''par'')))"

definition ex_leaf_cb :: "nat Node" where
  "ex_leaf_cb =
     set_on_exit (\<lambda>c. c + 1000)
       (set_on_enter (\<lambda>c. c + 10)
          (set_tick (\<lambda>c. (if c \<ge> 100 then kSuccess else kRunning, c + 1))
             (set_type kAction (new_Node ''leaf''))))"

definition ex_unbound_cb :: "nat Node" where
  "ex_unbound_cb = set_on_exit (\<lambda>c. c + 100) (set_on_enter (\<lambda>c. c + 10) ex_unbound)"

definition ex_seq_error :: "nat Node" where
  "ex_seq_error =
     SetChildren [Some (ex_leaf kSuccess), Some (ex_leaf kError), Some (ex_leaf kSuccess)]
       (set_type kSequence (new_Node ''seq''))"

definition ex_par_error :: "ParallelPolicy \<Rightarrow> nat Node" where
  "ex_par_error policy =
     set_parallel_policy policy
       (SetChildren [Some (ex_leaf kError), Some (ex_leaf kSuccess)]
          (set_type kParallel (new_Node ''par'')))"

definition ex_par_null :: "nat Node" where
  "ex_par_null =
     SetChildren [Some (ex_leaf kSuccess), None] (set_type kParallel (new_Node ''par''))"

lemmas ex_defs =
  ex_leaf_def ex_unbound_def ex_seq_null_def ex_seq_deep_def
  new_Node_def set_type_def set_tick_def set_on_enter_def set_on_exit_def
  set_parallel_policy_def AddChild_def SetChildren_def SetChild_def

lemmas tick_defs =
  Tick.simps TickLeaf_def TickSequence_def TickSelector_def TickParallel_def
  TickInverter_def CallEnter_def CallExit_def set_status_def ChildAt_def
  children_count_def par_child_def par_policy_def Let_def

section \<open>Callbacks that reach the tree\<close>

text \<open>
  A callback receives the context by reference and nothing else, but the context may
  refer to nodes of the tree that is being ticked, and a callback may then call
  \<^verbatim>\<open>Node::Reset\<close> or \<^verbatim>\<open>Node::Tick\<close> on them in the middle of a tick. The
  embedding above leaves this out: there the members of a node are no part of what a
  callback acts on. The embedding of this section puts them there.

  The mutable members of a node, \<^verbatim>\<open>status_\<close>, \<^verbatim>\<open>current_child_\<close>,
  \<^verbatim>\<open>child_done_bits_\<close> and \<^verbatim>\<open>child_success_bits_\<close> (the members that
  \<^verbatim>\<open>Tick\<close> and \<^verbatim>\<open>Reset\<close> assign), are a \<open>Cell\<close>. The cells of all nodes are
  in a heap, addressed by the path of the node from the root of the tree. A callback is
  a function on the world, the pair of the context and the heap, so it may change the
  cell of any node in any way; this covers every call of \<^verbatim>\<open>Reset\<close> and of
  \<^verbatim>\<open>Tick\<close> it can make. The node value gives the wiring only (type, policy,
  callbacks, children), which the tick never assigns and which the callbacks are taken
  to leave alone while the tree is ticked; its own copies of the mutable members are
  not read. The node graph is a tree, as before.

  The functions with the suffix \<open>_h\<close> are the handlers of the source once more, every
  mutable member read and written in the heap at the point where the source reads and
  writes it.
\<close>

record Cell =
  cell_status :: Status
  cell_current_child :: nat
  cell_child_done_bits :: "32 word"
  cell_child_success_bits :: "32 word"

type_synonym Heap = "nat list \<Rightarrow> Cell"
type_synonym 'c World = "'c \<times> Heap"

text \<open>
  \<open>rd p w\<close> reads the members of the node at address \<open>p\<close>, and \<open>wr p f w\<close> assigns to
  them.
\<close>

definition rd :: "nat list \<Rightarrow> 'c World \<Rightarrow> Cell" where
  "rd p w = snd w p"

definition wr :: "nat list \<Rightarrow> (Cell \<Rightarrow> Cell) \<Rightarrow> 'c World \<Rightarrow> 'c World" where
  "wr p f w = (fst w, (snd w)(p := f (snd w p)))"

definition CallEnter_h :: "('c World) Node \<Rightarrow> 'c World \<Rightarrow> 'c World" where
  "CallEnter_h n w = (case on_enter (members n) of None \<Rightarrow> w | Some f \<Rightarrow> f w)"

definition CallExit_h :: "('c World) Node \<Rightarrow> 'c World \<Rightarrow> 'c World" where
  "CallExit_h n w = (case on_exit (members n) of None \<Rightarrow> w | Some f \<Rightarrow> f w)"

text \<open>
  \<^verbatim>\<open>TickLeaf\<close>: the result is stored in \<^verbatim>\<open>status_\<close> after the tick callback
  returns and before \<^verbatim>\<open>CallExit\<close>.
\<close>

definition TickLeaf_h :: "('c World) Node \<Rightarrow> nat list \<Rightarrow> 'c World \<Rightarrow> Status \<times> 'c World" where
  "TickLeaf_h n p w =
     (case tick (members n) of
        None \<Rightarrow> (kError, wr p (\<lambda>c. c\<lparr>cell_status := kError\<rparr>) w)
      | Some f \<Rightarrow>
          (let w1 = (if cell_status (rd p w) \<noteq> kRunning then CallEnter_h n w else w)
           in case f w1 of
                (result, w2) \<Rightarrow>
                  (let w3 = wr p (\<lambda>c. c\<lparr>cell_status := result\<rparr>) w2
                   in (result, if result \<noteq> kRunning then CallExit_h n w3 else w3))))"

text \<open>
  The loop of \<^verbatim>\<open>TickSequence\<close> from the local index \<open>i\<close> on, up to and including
  the assignments to \<^verbatim>\<open>current_child_\<close> and \<^verbatim>\<open>status_\<close> that precede each
  return; the child at index \<open>i\<close> has the address \<open>p @ [i]\<close>.
\<close>

fun seq_loop_h ::
  "(('c World) Node \<Rightarrow> nat list \<Rightarrow> 'c World \<Rightarrow> Status \<times> 'c World)
     \<Rightarrow> ('c World) Node option list \<Rightarrow> nat list \<Rightarrow> nat \<Rightarrow> 'c World \<Rightarrow> Status \<times> 'c World" where
  "seq_loop_h tk [] p i w = (kSuccess, wr p (\<lambda>c. c\<lparr>cell_status := kSuccess\<rparr>) w)"
| "seq_loop_h tk (None # cs) p i w = (kError, wr p (\<lambda>c. c\<lparr>cell_status := kError\<rparr>) w)"
| "seq_loop_h tk (Some child # cs) p i w =
     (case tk child (p @ [i]) w of
        (child_status, w1) \<Rightarrow>
          if child_status = kRunning
          then (kRunning, wr p (\<lambda>c. c\<lparr>cell_current_child := i, cell_status := kRunning\<rparr>) w1)
          else if child_status \<noteq> kSuccess
          then (child_status,
                wr p (\<lambda>c. c\<lparr>cell_current_child := i, cell_status := child_status\<rparr>) w1)
          else seq_loop_h tk cs p (i + 1) w1)"

text \<open>
  \<^verbatim>\<open>TickSequence\<close>: the loop index starts at \<^verbatim>\<open>current_child_\<close> as it is after
  the on-enter callback has returned; \<^verbatim>\<open>CallExit\<close> follows every status but
  Running.
\<close>

definition TickSequence_h ::
  "(('c World) Node \<Rightarrow> nat list \<Rightarrow> 'c World \<Rightarrow> Status \<times> 'c World)
     \<Rightarrow> ('c World) Node \<Rightarrow> nat list \<Rightarrow> 'c World \<Rightarrow> Status \<times> 'c World" where
  "TickSequence_h tk n p w =
     (let w0 = (if cell_status (rd p w) \<noteq> kRunning
                then CallEnter_h n (wr p (\<lambda>c. c\<lparr>cell_current_child := 0\<rparr>) w) else w);
          start = cell_current_child (rd p w0)
      in case seq_loop_h tk (drop start (children n)) p start w0 of
           (st, w1) \<Rightarrow> (st, if st \<noteq> kRunning then CallExit_h n w1 else w1))"

fun sel_loop_h ::
  "(('c World) Node \<Rightarrow> nat list \<Rightarrow> 'c World \<Rightarrow> Status \<times> 'c World)
     \<Rightarrow> ('c World) Node option list \<Rightarrow> nat list \<Rightarrow> nat \<Rightarrow> 'c World \<Rightarrow> Status \<times> 'c World" where
  "sel_loop_h tk [] p i w = (kFailure, wr p (\<lambda>c. c\<lparr>cell_status := kFailure\<rparr>) w)"
| "sel_loop_h tk (None # cs) p i w = (kError, wr p (\<lambda>c. c\<lparr>cell_status := kError\<rparr>) w)"
| "sel_loop_h tk (Some child # cs) p i w =
     (case tk child (p @ [i]) w of
        (child_status, w1) \<Rightarrow>
          if child_status = kRunning
          then (kRunning, wr p (\<lambda>c. c\<lparr>cell_current_child := i, cell_status := kRunning\<rparr>) w1)
          else if child_status = kSuccess
          then (kSuccess, wr p (\<lambda>c. c\<lparr>cell_current_child := i, cell_status := kSuccess\<rparr>) w1)
          else if child_status = kError
          then (kError, wr p (\<lambda>c. c\<lparr>cell_current_child := i, cell_status := kError\<rparr>) w1)
          else sel_loop_h tk cs p (i + 1) w1)"

definition TickSelector_h ::
  "(('c World) Node \<Rightarrow> nat list \<Rightarrow> 'c World \<Rightarrow> Status \<times> 'c World)
     \<Rightarrow> ('c World) Node \<Rightarrow> nat list \<Rightarrow> 'c World \<Rightarrow> Status \<times> 'c World" where
  "TickSelector_h tk n p w =
     (let w0 = (if cell_status (rd p w) \<noteq> kRunning
                then CallEnter_h n (wr p (\<lambda>c. c\<lparr>cell_current_child := 0\<rparr>) w) else w);
          start = cell_current_child (rd p w0)
      in case sel_loop_h tk (drop start (children n)) p start w0 of
           (st, w1) \<Rightarrow> (st, if st \<noteq> kRunning then CallExit_h n w1 else w1))"

text \<open>
  The loop body of \<^verbatim>\<open>TickParallel\<close>: both bitmaps are read from the heap in every
  iteration and updated in place after the child's tick.
\<close>

definition par_child_h ::
  "(('c World) Node \<Rightarrow> nat list \<Rightarrow> 'c World \<Rightarrow> Status \<times> 'c World)
     \<Rightarrow> ('c World) Node option \<Rightarrow> nat list \<Rightarrow> nat \<Rightarrow> Counters \<Rightarrow> 'c World
     \<Rightarrow> Counters \<times> 'c World" where
  "par_child_h tk ch p i cnt w =
     (case cnt of
        (running_count, success_count, failure_count) \<Rightarrow>
          (let bit_mask = (push_bit i 1 :: 32 word) in
           if cell_child_done_bits (rd p w) AND bit_mask \<noteq> 0
           then (if cell_child_success_bits (rd p w) AND bit_mask \<noteq> 0
                 then ((running_count, success_count + 1, failure_count), w)
                 else ((running_count, success_count, failure_count + 1), w))
           else (case ch of
                   None \<Rightarrow>
                     ((running_count, success_count, failure_count + 1),
                      wr p (\<lambda>c. c\<lparr>cell_child_done_bits :=
                                       cell_child_done_bits c OR bit_mask\<rparr>) w)
                 | Some child \<Rightarrow>
                     (case tk child (p @ [i]) w of
                        (child_status, w1) \<Rightarrow>
                          if child_status = kRunning
                          then ((running_count + 1, success_count, failure_count), w1)
                          else if child_status = kSuccess
                          then ((running_count, success_count + 1, failure_count),
                                wr p (\<lambda>c. c\<lparr>cell_child_done_bits :=
                                                 cell_child_done_bits c OR bit_mask,
                                               cell_child_success_bits :=
                                                 cell_child_success_bits c OR bit_mask\<rparr>) w1)
                          else ((running_count, success_count, failure_count + 1),
                                wr p (\<lambda>c. c\<lparr>cell_child_done_bits :=
                                                 cell_child_done_bits c OR bit_mask\<rparr>) w1)))))"

fun par_loop_h ::
  "(('c World) Node \<Rightarrow> nat list \<Rightarrow> 'c World \<Rightarrow> Status \<times> 'c World)
     \<Rightarrow> ('c World) Node option list \<Rightarrow> nat list \<Rightarrow> nat \<Rightarrow> Counters \<Rightarrow> 'c World
     \<Rightarrow> Counters \<times> 'c World" where
  "par_loop_h tk [] p i cnt w = (cnt, w)"
| "par_loop_h tk (ch # cs) p i cnt w =
     (case par_child_h tk ch p i cnt w of
        (cnt1, w1) \<Rightarrow> par_loop_h tk cs p (i + 1) cnt1 w1)"

definition TickParallel_h ::
  "(('c World) Node \<Rightarrow> nat list \<Rightarrow> 'c World \<Rightarrow> Status \<times> 'c World)
     \<Rightarrow> ('c World) Node \<Rightarrow> nat list \<Rightarrow> 'c World \<Rightarrow> Status \<times> 'c World" where
  "TickParallel_h tk n p w =
     (let w0 = (if cell_status (rd p w) \<noteq> kRunning
                then CallEnter_h n
                       (wr p (\<lambda>c. c\<lparr>cell_child_done_bits := 0,
                                      cell_child_success_bits := 0\<rparr>) w)
                else w)
      in case par_loop_h tk (children n) p 0 (0, 0, 0) w0 of
           (cnt, w1) \<Rightarrow>
             (let st = par_policy (success_policy (members n)) cnt;
                  w2 = wr p (\<lambda>c. c\<lparr>cell_status := st\<rparr>) w1
              in (st, if st \<noteq> kRunning then CallExit_h n w2 else w2)))"

definition TickInverter_h ::
  "(('c World) Node \<Rightarrow> nat list \<Rightarrow> 'c World \<Rightarrow> Status \<times> 'c World)
     \<Rightarrow> ('c World) Node \<Rightarrow> nat list \<Rightarrow> 'c World \<Rightarrow> Status \<times> 'c World" where
  "TickInverter_h tk n p w =
     (if children_count n \<noteq> 1 then (kError, wr p (\<lambda>c. c\<lparr>cell_status := kError\<rparr>) w)
      else case ChildAt n 0 of
        None \<Rightarrow> (kError, wr p (\<lambda>c. c\<lparr>cell_status := kError\<rparr>) w)
      | Some child \<Rightarrow>
          (let w0 = (if cell_status (rd p w) \<noteq> kRunning then CallEnter_h n w else w)
           in case tk child (p @ [0]) w0 of
                (child_status, w1) \<Rightarrow>
                  (let result = (if child_status = kSuccess then kFailure
                                 else if child_status = kFailure then kSuccess
                                 else child_status);
                       w2 = wr p (\<lambda>c. c\<lparr>cell_status := result\<rparr>) w1
                   in (result, if result \<noteq> kRunning then CallExit_h n w2 else w2))))"

lemma seq_loop_h_eq:
  "(\<And>c q x. Some c \<in> set cs \<Longrightarrow> tk c q x = tk' c q x)
   \<Longrightarrow> seq_loop_h tk cs p i w = seq_loop_h tk' cs p i w"
proof (induction cs arbitrary: i w)
  case Nil
  show ?case by simp
next
  case (Cons ch cs)
  show ?case
  proof (cases ch)
    case None
    then show ?thesis by simp
  next
    case (Some c)
    obtain a b where out: "tk' c (p @ [i]) w = (a, b)"
      by (cases "tk' c (p @ [i]) w") auto
    have head: "tk c (p @ [i]) w = (a, b)" using Cons.prems Some out by simp
    have rest: "seq_loop_h tk cs p (i + 1) b = seq_loop_h tk' cs p (i + 1) b"
      using Cons.IH Cons.prems by simp
    show ?thesis using Some out head rest by simp
  qed
qed

lemma sel_loop_h_eq:
  "(\<And>c q x. Some c \<in> set cs \<Longrightarrow> tk c q x = tk' c q x)
   \<Longrightarrow> sel_loop_h tk cs p i w = sel_loop_h tk' cs p i w"
proof (induction cs arbitrary: i w)
  case Nil
  show ?case by simp
next
  case (Cons ch cs)
  show ?case
  proof (cases ch)
    case None
    then show ?thesis by simp
  next
    case (Some c)
    obtain a b where out: "tk' c (p @ [i]) w = (a, b)"
      by (cases "tk' c (p @ [i]) w") auto
    have head: "tk c (p @ [i]) w = (a, b)" using Cons.prems Some out by simp
    have rest: "sel_loop_h tk cs p (i + 1) b = sel_loop_h tk' cs p (i + 1) b"
      using Cons.IH Cons.prems by simp
    show ?thesis using Some out head rest by simp
  qed
qed

lemma par_child_h_eq:
  "(\<And>c q x. ch = Some c \<Longrightarrow> tk c q x = tk' c q x)
   \<Longrightarrow> par_child_h tk ch p i cnt w = par_child_h tk' ch p i cnt w"
  by (cases ch; cases cnt) (simp_all add: par_child_h_def Let_def)

lemma par_loop_h_eq:
  "(\<And>c q x. Some c \<in> set cs \<Longrightarrow> tk c q x = tk' c q x)
   \<Longrightarrow> par_loop_h tk cs p i cnt w = par_loop_h tk' cs p i cnt w"
proof (induction cs arbitrary: i cnt w)
  case Nil
  show ?case by simp
next
  case (Cons ch cs)
  have "par_child_h tk ch p i cnt w = par_child_h tk' ch p i cnt w"
    using Cons.prems by (intro par_child_h_eq) simp
  moreover have "\<And>j c1 x. par_loop_h tk cs p j c1 x = par_loop_h tk' cs p j c1 x"
    using Cons.IH Cons.prems by simp
  ultimately show ?case by (simp split: prod.splits)
qed

lemma TickSequence_h_cong [fundef_cong]:
  "n = n' \<Longrightarrow> p = p' \<Longrightarrow> w = w'
   \<Longrightarrow> (\<And>c q x. Some c \<in> set (children n') \<Longrightarrow> tk c q x = tk' c q x)
   \<Longrightarrow> TickSequence_h tk n p w = TickSequence_h tk' n' p' w'"
proof -
  assume a: "n = n'" "p = p'" "w = w'"
    and b: "\<And>c q x. Some c \<in> set (children n') \<Longrightarrow> tk c q x = tk' c q x"
  have "\<And>k j x. seq_loop_h tk (drop k (children n')) p' j x
          = seq_loop_h tk' (drop k (children n')) p' j x"
    using b by (intro seq_loop_h_eq) (auto dest: in_set_dropD)
  then show ?thesis using a by (simp add: TickSequence_h_def)
qed

lemma TickSelector_h_cong [fundef_cong]:
  "n = n' \<Longrightarrow> p = p' \<Longrightarrow> w = w'
   \<Longrightarrow> (\<And>c q x. Some c \<in> set (children n') \<Longrightarrow> tk c q x = tk' c q x)
   \<Longrightarrow> TickSelector_h tk n p w = TickSelector_h tk' n' p' w'"
proof -
  assume a: "n = n'" "p = p'" "w = w'"
    and b: "\<And>c q x. Some c \<in> set (children n') \<Longrightarrow> tk c q x = tk' c q x"
  have "\<And>k j x. sel_loop_h tk (drop k (children n')) p' j x
          = sel_loop_h tk' (drop k (children n')) p' j x"
    using b by (intro sel_loop_h_eq) (auto dest: in_set_dropD)
  then show ?thesis using a by (simp add: TickSelector_h_def)
qed

lemma TickParallel_h_cong [fundef_cong]:
  "n = n' \<Longrightarrow> p = p' \<Longrightarrow> w = w'
   \<Longrightarrow> (\<And>c q x. Some c \<in> set (children n') \<Longrightarrow> tk c q x = tk' c q x)
   \<Longrightarrow> TickParallel_h tk n p w = TickParallel_h tk' n' p' w'"
proof -
  assume a: "n = n'" "p = p'" "w = w'"
    and b: "\<And>c q x. Some c \<in> set (children n') \<Longrightarrow> tk c q x = tk' c q x"
  have "\<And>j c x. par_loop_h tk (children n') p' j c x = par_loop_h tk' (children n') p' j c x"
    using b by (intro par_loop_h_eq) auto
  then show ?thesis using a by (simp add: TickParallel_h_def)
qed

lemma TickInverter_h_cong [fundef_cong]:
  "n = n' \<Longrightarrow> p = p' \<Longrightarrow> w = w'
   \<Longrightarrow> (\<And>c q x. Some c \<in> set (children n') \<Longrightarrow> tk c q x = tk' c q x)
   \<Longrightarrow> TickInverter_h tk n p w = TickInverter_h tk' n' p' w'"
proof -
  assume a: "n = n'" "p = p'" "w = w'"
    and b: "\<And>c q x. Some c \<in> set (children n') \<Longrightarrow> tk c q x = tk' c q x"
  have "\<And>c. ChildAt n' 0 = Some c \<Longrightarrow> Some c \<in> set (children n')"
    by (metis ChildAt_def children_count_def nth_mem option.distinct(1))
  then have "\<And>c q x. ChildAt n' 0 = Some c \<Longrightarrow> tk c q x = tk' c q x"
    using b by blast
  then show ?thesis using a by (simp add: TickInverter_h_def split: option.splits)
qed

function Tick_h :: "('c World) Node \<Rightarrow> nat list \<Rightarrow> 'c World \<Rightarrow> Status \<times> 'c World" where
  "Tick_h n p w =
     (case type (members n) of
        kAction \<Rightarrow> TickLeaf_h n p w
      | kCondition \<Rightarrow> TickLeaf_h n p w
      | kSequence \<Rightarrow> TickSequence_h Tick_h n p w
      | kSelector \<Rightarrow> TickSelector_h Tick_h n p w
      | kParallel \<Rightarrow> TickParallel_h Tick_h n p w
      | kInverter \<Rightarrow> TickInverter_h Tick_h n p w
      | kOutOfRange \<Rightarrow> (kError, wr p (\<lambda>c. c\<lparr>cell_status := kError\<rparr>) w))"
  by pat_completeness auto
termination
  by (relation "measure (\<lambda>(n, p, w). size n)") (auto simp: size_child)

declare Tick_h.simps [simp del]

text \<open>
  \<^verbatim>\<open>Node::Reset\<close> on the heap: the four assignments at the address of the node,
  then the loop over its non-null children. Of the node it uses the children only.
\<close>

fun Reset_h :: "'c Node \<Rightarrow> nat list \<Rightarrow> Heap \<Rightarrow> Heap"
  and reset_children_h :: "'c Node option list \<Rightarrow> nat list \<Rightarrow> nat \<Rightarrow> Heap \<Rightarrow> Heap" where
  "Reset_h (Node m cs) p h =
     reset_children_h cs p 0
       (h(p := (h p)\<lparr>cell_status := kFailure, cell_current_child := 0,
                    cell_child_done_bits := 0, cell_child_success_bits := 0\<rparr>))"
| "reset_children_h [] p i h = h"
| "reset_children_h (None # cs) p i h = reset_children_h cs p (i + 1) h"
| "reset_children_h (Some c # cs) p i h = reset_children_h cs p (i + 1) (Reset_h c (p @ [i]) h)"

text \<open>
  \<open>fresh_heap\<close> holds every node as its constructor leaves it. \<open>ex_leaf_reset\<close> is an
  action that returns Success and whose on-exit callback calls \<^verbatim>\<open>Reset\<close> on the
  action itself. \<open>ex_seq_reset\<close> is a sequence of two actions with an on-exit callback
  that counts in the context; its first action returns Success and has an on-exit
  callback that calls \<^verbatim>\<open>Reset\<close> on the sequence (whose wiring is \<open>ex_seq_shape\<close>),
  its second action returns Error.
\<close>

definition fresh_heap :: Heap where
  "fresh_heap = (\<lambda>p. \<lparr>cell_status = kFailure, cell_current_child = 0,
                       cell_child_done_bits = 0, cell_child_success_bits = 0\<rparr>)"

definition ex_leaf_reset :: "(nat World) Node" where
  "ex_leaf_reset =
     set_on_exit (\<lambda>w. (fst w, Reset_h (new_Node ''leaf'' :: unit Node) [] (snd w)))
       (set_tick (\<lambda>w. (kSuccess, (fst w + 1, snd w)))
          (set_type kAction (new_Node ''leaf'')))"

definition ex_seq_shape :: "unit Node" where
  "ex_seq_shape = AddChild (new_Node ''b'') (AddChild (new_Node ''a'') (new_Node ''seq''))"

definition ex_seq_reset :: "(nat World) Node" where
  "ex_seq_reset =
     set_on_exit (\<lambda>w. (fst w + 100, snd w))
       (AddChild
          (set_tick (\<lambda>w. (kError, (fst w + 1, snd w))) (set_type kAction (new_Node ''b'')))
          (AddChild
             (set_on_exit (\<lambda>w. (fst w, Reset_h ex_seq_shape [] (snd w)))
                (set_tick (\<lambda>w. (kSuccess, (fst w + 1, snd w)))
                   (set_type kAction (new_Node ''a''))))
             (set_type kSequence (new_Node ''seq''))))"

lemmas heap_defs =
  Tick_h.simps TickLeaf_h_def TickSequence_h_def TickSelector_h_def TickParallel_h_def
  TickInverter_h_def CallEnter_h_def CallExit_h_def rd_def wr_def fresh_heap_def
  ChildAt_def children_count_def par_child_h_def par_policy_def Let_def
  new_Node_def set_type_def set_tick_def set_on_enter_def set_on_exit_def
  set_parallel_policy_def AddChild_def SetChildren_def SetChild_def

text \<open>
  \<open>exit_point n p st w'\<close>: the world \<open>w'\<close> is one in which the node at \<open>p\<close> stores \<open>st\<close>,
  followed by the on-exit callback of \<open>n\<close> when \<open>st\<close> is terminal and \<open>n\<close> passes its
  configuration guard.
\<close>

definition exit_point ::
  "('c World) Node \<Rightarrow> nat list \<Rightarrow> Status \<Rightarrow> 'c World \<Rightarrow> bool" where
  "exit_point n p st w' =
     (\<exists>w0. cell_status (rd p w0) = st
        \<and> w' = (if st \<noteq> kRunning \<and> config_guard n then CallExit_h n w0 else w0))"

section \<open>The returned status and the cached status\<close>

text \<open>The status of a node when a scan returns is the status the scan returns.\<close>

lemma rd_wr: "rd p (wr p f w) = f (rd p w)"
  by (simp add: rd_def wr_def)

lemma seq_loop_h_status:
  "seq_loop_h tk cs p i w = (st, w1) \<Longrightarrow> cell_status (rd p w1) = st"
proof (induction cs arbitrary: i w)
  case Nil
  then show ?case by (auto simp: rd_wr)
next
  case (Cons ch cs)
  show ?case
  proof (cases ch)
    case None
    with Cons.prems show ?thesis by (auto simp: rd_wr)
  next
    case (Some c)
    obtain a b where out: "tk c (p @ [i]) w = (a, b)"
      by (cases "tk c (p @ [i]) w") auto
    show ?thesis
    proof (cases "a = kSuccess")
      case True
      with Cons.prems Some out have "seq_loop_h tk cs p (i + 1) b = (st, w1)" by simp
      then show ?thesis by (rule Cons.IH)
    next
      case False
      with Cons.prems Some out show ?thesis by (auto simp: rd_wr split: if_splits)
    qed
  qed
qed

lemma sel_loop_h_status:
  "sel_loop_h tk cs p i w = (st, w1) \<Longrightarrow> cell_status (rd p w1) = st"
proof (induction cs arbitrary: i w)
  case Nil
  then show ?case by (auto simp: rd_wr)
next
  case (Cons ch cs)
  show ?case
  proof (cases ch)
    case None
    with Cons.prems show ?thesis by (auto simp: rd_wr)
  next
    case (Some c)
    obtain a b where out: "tk c (p @ [i]) w = (a, b)"
      by (cases "tk c (p @ [i]) w") auto
    show ?thesis
    proof (cases "a = kFailure")
      case True
      with Cons.prems Some out have "sel_loop_h tk cs p (i + 1) b = (st, w1)" by simp
      then show ?thesis by (rule Cons.IH)
    next
      case False
      with Cons.prems Some out show ?thesis
        by (cases a) (auto simp: rd_wr split: if_splits)
    qed
  qed
qed

text \<open>Every handler stores the status it returns, and runs at most on-exit after that.\<close>

lemma exit_pointI:
  "cell_status (rd p w0) = st
   \<Longrightarrow> w' = (if st \<noteq> kRunning \<and> config_guard n then CallExit_h n w0 else w0)
   \<Longrightarrow> exit_point n p st w'"
  unfolding exit_point_def by blast

lemma TickLeaf_h_exit:
  assumes "TickLeaf_h n p w = (st, w')" and "IsLeafType (type (members n))"
  shows "exit_point n p st w'"
proof (cases "tick (members n)")
  case None
  with assms have "st = kError" "w' = wr p (\<lambda>c. c\<lparr>cell_status := kError\<rparr>) w"
    by (auto simp: TickLeaf_h_def)
  moreover have "\<not> config_guard n"
    using None assms(2) by (auto simp: config_guard_def IsLeafType_def)
  ultimately show ?thesis
    by (intro exit_pointI [where ?w0.0 = "wr p (\<lambda>c. c\<lparr>cell_status := kError\<rparr>) w"])
       (simp_all add: rd_wr)
next
  case (Some f)
  define w1 where "w1 = (if cell_status (rd p w) \<noteq> kRunning then CallEnter_h n w else w)"
  obtain r w2 where f: "f w1 = (r, w2)" by (cases "f w1") auto
  define w3 where "w3 = wr p (\<lambda>c. c\<lparr>cell_status := r\<rparr>) w2"
  have res: "st = r" "w' = (if r \<noteq> kRunning then CallExit_h n w3 else w3)"
    using assms(1) Some f by (auto simp: TickLeaf_h_def Let_def w1_def w3_def)
  have g: "config_guard n"
    using Some assms(2) by (auto simp: config_guard_def IsLeafType_def)
  have "cell_status (rd p w3) = st" by (simp add: w3_def rd_wr res)
  then show ?thesis using res g by (intro exit_pointI [where ?w0.0 = w3]) simp_all
qed

lemma TickSequence_h_exit:
  assumes "TickSequence_h tk n p w = (st, w')" and "type (members n) = kSequence"
  shows "exit_point n p st w'"
proof -
  define w0 where "w0 = (if cell_status (rd p w) \<noteq> kRunning
                then CallEnter_h n (wr p (\<lambda>c. c\<lparr>cell_current_child := 0\<rparr>) w) else w)"
  define start where "start = cell_current_child (rd p w0)"
  obtain s w1 where l: "seq_loop_h tk (drop start (children n)) p start w0 = (s, w1)"
    by (cases "seq_loop_h tk (drop start (children n)) p start w0") auto
  have res: "st = s" "w' = (if s \<noteq> kRunning then CallExit_h n w1 else w1)"
    using assms(1) l by (auto simp: TickSequence_h_def Let_def w0_def start_def)
  have "cell_status (rd p w1) = s" using l by (rule seq_loop_h_status)
  moreover have "config_guard n" using assms(2) by (simp add: config_guard_def)
  ultimately show ?thesis using res by (intro exit_pointI [where ?w0.0 = w1]) simp_all
qed

lemma TickSelector_h_exit:
  assumes "TickSelector_h tk n p w = (st, w')" and "type (members n) = kSelector"
  shows "exit_point n p st w'"
proof -
  define w0 where "w0 = (if cell_status (rd p w) \<noteq> kRunning
                then CallEnter_h n (wr p (\<lambda>c. c\<lparr>cell_current_child := 0\<rparr>) w) else w)"
  define start where "start = cell_current_child (rd p w0)"
  obtain s w1 where l: "sel_loop_h tk (drop start (children n)) p start w0 = (s, w1)"
    by (cases "sel_loop_h tk (drop start (children n)) p start w0") auto
  have res: "st = s" "w' = (if s \<noteq> kRunning then CallExit_h n w1 else w1)"
    using assms(1) l by (auto simp: TickSelector_h_def Let_def w0_def start_def)
  have "cell_status (rd p w1) = s" using l by (rule sel_loop_h_status)
  moreover have "config_guard n" using assms(2) by (simp add: config_guard_def)
  ultimately show ?thesis using res by (intro exit_pointI [where ?w0.0 = w1]) simp_all
qed

lemma TickParallel_h_exit:
  assumes "TickParallel_h tk n p w = (st, w')" and "type (members n) = kParallel"
  shows "exit_point n p st w'"
proof -
  define w0 where "w0 = (if cell_status (rd p w) \<noteq> kRunning
                then CallEnter_h n
                       (wr p (\<lambda>c. c\<lparr>cell_child_done_bits := 0,
                                      cell_child_success_bits := 0\<rparr>) w)
                else w)"
  obtain cnt w1 where l: "par_loop_h tk (children n) p 0 (0, 0, 0) w0 = (cnt, w1)"
    by (cases "par_loop_h tk (children n) p 0 (0, 0, 0) w0") auto
  define s where "s = par_policy (success_policy (members n)) cnt"
  define w2 where "w2 = wr p (\<lambda>c. c\<lparr>cell_status := s\<rparr>) w1"
  have res: "st = s" "w' = (if s \<noteq> kRunning then CallExit_h n w2 else w2)"
    using assms(1) l by (auto simp: TickParallel_h_def Let_def w0_def s_def w2_def)
  have "cell_status (rd p w2) = s" by (simp add: w2_def rd_wr)
  moreover have "config_guard n" using assms(2) by (simp add: config_guard_def)
  ultimately show ?thesis using res by (intro exit_pointI [where ?w0.0 = w2]) simp_all
qed

lemma TickInverter_h_exit:
  assumes "TickInverter_h tk n p w = (st, w')" and "type (members n) = kInverter"
  shows "exit_point n p st w'"
proof (cases "children_count n = 1 \<and> ChildAt n 0 \<noteq> None")
  case False
  with assms(1) have "st = kError" "w' = wr p (\<lambda>c. c\<lparr>cell_status := kError\<rparr>) w"
    by (auto simp: TickInverter_h_def split: if_splits)
  moreover have "\<not> config_guard n"
    using False assms(2) by (auto simp: config_guard_def)
  ultimately show ?thesis
    by (intro exit_pointI [where ?w0.0 = "wr p (\<lambda>c. c\<lparr>cell_status := kError\<rparr>) w"])
       (simp_all add: rd_wr)
next
  case True
  then obtain child where ch: "children_count n = 1" "ChildAt n 0 = Some child" by auto
  define w0 where "w0 = (if cell_status (rd p w) \<noteq> kRunning then CallEnter_h n w else w)"
  obtain cs w1 where t: "tk child (p @ [0]) w0 = (cs, w1)"
    by (cases "tk child (p @ [0]) w0") auto
  define r where "r = (if cs = kSuccess then kFailure
                                 else if cs = kFailure then kSuccess
                                 else cs)"
  define w2 where "w2 = wr p (\<lambda>c. c\<lparr>cell_status := r\<rparr>) w1"
  have res: "st = r" "w' = (if r \<noteq> kRunning then CallExit_h n w2 else w2)"
    using assms(1) ch t by (auto simp: TickInverter_h_def Let_def w0_def r_def w2_def)
  have "cell_status (rd p w2) = r" by (simp add: w2_def rd_wr)
  moreover have "config_guard n" using True assms(2) by (simp add: config_guard_def)
  ultimately show ?thesis using res by (intro exit_pointI [where ?w0.0 = w2]) simp_all
qed

lemma Tick_h_exit:
  assumes "Tick_h n p w = (st, w')"
  shows "exit_point n p st w'"
proof (cases "type (members n)")
  case kAction
  then show ?thesis using assms TickLeaf_h_exit [of n p w st w']
    by (simp add: Tick_h.simps IsLeafType_def)
next
  case kCondition
  then show ?thesis using assms TickLeaf_h_exit [of n p w st w']
    by (simp add: Tick_h.simps IsLeafType_def)
next
  case kSequence
  then show ?thesis using assms TickSequence_h_exit [of Tick_h n p w st w']
    by (simp add: Tick_h.simps)
next
  case kSelector
  then show ?thesis using assms TickSelector_h_exit [of Tick_h n p w st w']
    by (simp add: Tick_h.simps)
next
  case kParallel
  then show ?thesis using assms TickParallel_h_exit [of Tick_h n p w st w']
    by (simp add: Tick_h.simps)
next
  case kInverter
  then show ?thesis using assms TickInverter_h_exit [of Tick_h n p w st w']
    by (simp add: Tick_h.simps)
next
  case kOutOfRange
  then have "st = kError" "w' = wr p (\<lambda>c. c\<lparr>cell_status := kError\<rparr>) w"
    using assms by (auto simp: Tick_h.simps)
  moreover have "\<not> config_guard n" using kOutOfRange by (simp add: config_guard_def)
  ultimately show ?thesis
    by (intro exit_pointI [where ?w0.0 = "wr p (\<lambda>c. c\<lparr>cell_status := kError\<rparr>) w"])
       (simp_all add: rd_wr)
qed

text \<open>
  C10, as the code has it. On every dispatch path of \<^verbatim>\<open>Node::Tick\<close>, the error
  paths included (unknown node type, unbound leaf callback, malformed inverter, null
  child), the call assigns the value it returns to the status of the node, and the only
  code that runs between that assignment and the return is the on-exit callback of the
  node itself, on a terminal result of a tick that passed the configuration guard. So
  the value returned is the status of the node immediately after the call whenever the
  result is Running, the guard failed, no on-exit callback is bound, or the on-exit
  callback leaves the status of its node as it found it. What any other callback run
  during the tick does to the tree makes no difference: the node assigns its status
  after them.
\<close>

theorem Tick_returns_status_stored_before_on_exit:
  assumes "Tick_h n p w = (st, w')"
  shows "(\<exists>w0. cell_status (rd p w0) = st
            \<and> w' = (if st \<noteq> kRunning \<and> config_guard n then CallExit_h n w0 else w0))
       \<and> (st = kRunning \<or> \<not> config_guard n \<or> on_exit (members n) = None
            \<or> (\<forall>x. cell_status (rd p (CallExit_h n x)) = cell_status (rd p x))
          \<longrightarrow> cell_status (rd p w') = st)"
proof -
  from assms have "exit_point n p st w'" by (rule Tick_h_exit)
  then obtain w0 where w0: "cell_status (rd p w0) = st"
    "w' = (if st \<noteq> kRunning \<and> config_guard n then CallExit_h n w0 else w0)"
    unfolding exit_point_def by blast
  have "cell_status (rd p w') = st"
    if h: "st = kRunning \<or> \<not> config_guard n \<or> on_exit (members n) = None
            \<or> (\<forall>x. cell_status (rd p (CallExit_h n x)) = cell_status (rd p x))"
  proof (cases "st \<noteq> kRunning \<and> config_guard n")
    case False
    with w0 show ?thesis by simp
  next
    case True
    with h have "on_exit (members n) = None
      \<or> (\<forall>x. cell_status (rd p (CallExit_h n x)) = cell_status (rd p x))"
      by blast
    then have "cell_status (rd p (CallExit_h n w0)) = cell_status (rd p w0)"
    proof
      assume "on_exit (members n) = None"
      then show ?thesis by (simp add: CallExit_h_def)
    next
      assume "\<forall>x. cell_status (rd p (CallExit_h n x)) = cell_status (rd p x)"
      then show ?thesis by blast
    qed
    with True w0 show ?thesis by simp
  qed
  with w0 show ?thesis by blast
qed

text \<open>
  The sequence \<open>ex_seq_reset\<close>, ticked on the fresh heap with the counter at 0. Its
  first action returns Success and its on-exit callback resets the sequence and both
  actions; the scan goes on with the second action, which returns Error; the sequence
  assigns Error to its status, its own on-exit callback adds 100 to the counter and
  leaves the heap alone, and the call returns Error.
\<close>

theorem Tick_returns_status_stored_before_on_exit_witness:
  "fst (Tick_h ex_seq_reset [] (0, fresh_heap)) = kError
   \<and> cell_status (rd [] (snd (Tick_h ex_seq_reset [] (0, fresh_heap)))) = kError
   \<and> on_exit (members ex_seq_reset) \<noteq> None \<and> config_guard ex_seq_reset
   \<and> (\<forall>x. cell_status (rd [] (CallExit_h ex_seq_reset x)) = cell_status (rd [] x))
   \<and> fst (snd (Tick_h ex_seq_reset [] (0, fresh_heap))) = 102"
proof -
  obtain st w' where t: "Tick_h ex_seq_reset [] (0, fresh_heap) = (st, w')"
    by (cases "Tick_h ex_seq_reset [] (0, fresh_heap)") auto
  have keeps: "\<forall>x. cell_status (rd [] (CallExit_h ex_seq_reset x)) = cell_status (rd [] x)"
    by (simp add: ex_seq_reset_def heap_defs)
  have run: "fst (Tick_h ex_seq_reset [] (0, fresh_heap)) = kError"
    "fst (snd (Tick_h ex_seq_reset [] (0, fresh_heap))) = 102"
    by (simp_all add: ex_seq_reset_def ex_seq_shape_def heap_defs)
  have cfg: "on_exit (members ex_seq_reset) \<noteq> None" "config_guard ex_seq_reset"
    by (simp_all add: ex_seq_reset_def heap_defs config_guard_def)
  from Tick_returns_status_stored_before_on_exit [OF t] keeps
  have "cell_status (rd [] w') = st" by blast
  with t run cfg keeps show ?thesis by simp
qed

text \<open>
  C10 as stated fails on an action whose on-exit callback calls \<^verbatim>\<open>Reset\<close> on the
  action: the tick callback returns Success, the node stores Success, on-exit resets
  the node, and the call returns Success while the status of the node is Failure.
\<close>

theorem on_exit_Reset_changes_cached_status:
  "fst (Tick_h ex_leaf_reset [] (0, fresh_heap)) = kSuccess
   \<and> cell_status (rd [] (snd (Tick_h ex_leaf_reset [] (0, fresh_heap)))) = kFailure"
  by (simp add: ex_leaf_reset_def heap_defs)

section \<open>Reset\<close>

lemma Reset_members:
  "members (Reset n) = (members n)\<lparr>status := kFailure, current_child := 0,
     child_done_bits := 0, child_success_bits := 0\<rparr>"
  by (cases n) simp

lemma Reset_children: "children (Reset n) = map (map_option Reset) (children n)"
  by (cases n) simp

lemma ChildAt_Reset: "ChildAt (Reset n) i = map_option Reset (ChildAt n i)"
  by (simp add: ChildAt_def children_count_def Reset_children)

lemma node_at_Reset: "node_at (Reset n) p = map_option Reset (node_at n p)"
proof (induction p arbitrary: n)
  case Nil
  show ?case by simp
next
  case (Cons i p)
  show ?case by (cases "ChildAt n i") (simp_all add: ChildAt_Reset Cons.IH)
qed

text \<open>
  C8. After \<^verbatim>\<open>Reset\<close>, wherever the tree had a node \<open>m\<close> (at any path \<open>p\<close>, the
  root included) it has a node with status Failure, cursor 0 and both bitmaps 0, and
  with the type, callbacks, policy, name and number of children of \<open>m\<close>; where the tree
  had no node (a null child, or no such index) it still has none. So the shape of the
  tree, with the order of the children, is unchanged.
\<close>

theorem Reset_idle_keeps_configuration:
  "(case node_at n p of
      None \<Rightarrow> node_at (Reset n) p = None
    | Some m \<Rightarrow>
        (\<exists>m'. node_at (Reset n) p = Some m'
           \<and> status (members m') = kFailure
           \<and> current_child (members m') = 0
           \<and> child_done_bits (members m') = 0
           \<and> child_success_bits (members m') = 0
           \<and> type (members m') = type (members m)
           \<and> tick (members m') = tick (members m)
           \<and> on_enter (members m') = on_enter (members m)
           \<and> on_exit (members m') = on_exit (members m)
           \<and> success_policy (members m') = success_policy (members m)
           \<and> name (members m') = name (members m)
           \<and> children_count m' = children_count m))"
  by (cases "node_at n p")
     (simp_all add: node_at_Reset Reset_members Reset_children children_count_def)

section \<open>Validation\<close>

lemma has_null_child_iff: "has_null_child cs \<longleftrightarrow> None \<in> set cs"
proof (induction cs)
  case Nil
  show ?case by simp
next
  case (Cons ch cs)
  then show ?case by (cases ch) auto
qed

lemma first_error_append:
  "first_error (xs @ ys) = (if first_error xs \<noteq> kNone then first_error xs else first_error ys)"
  by (induction xs) auto

lemma first_error_kNone: "first_error es = kNone \<longleftrightarrow> (\<forall>e \<in> set es. e = kNone)"
  by (induction es) auto

lemma validate_children_first_error:
  "(\<And>c. Some c \<in> set cs \<Longrightarrow> vt c = first_error (map v (preorder c)))
   \<Longrightarrow> validate_children vt cs =
       first_error (map v (concat (map (\<lambda>ch. case ch of None \<Rightarrow> [] | Some c \<Rightarrow> preorder c) cs)))"
proof (induction cs)
  case Nil
  show ?case by simp
next
  case (Cons ch cs)
  then show ?case by (cases ch) (simp_all add: first_error_append Let_def)
qed

lemma preorder_unfold:
  "preorder n =
     n # concat (map (\<lambda>ch. case ch of None \<Rightarrow> [] | Some c \<Rightarrow> preorder c) (children n))"
  by (cases n) simp

lemma ValidateTree_first_error:
  "ValidateTree K n = first_error (map (Validate K) (preorder n))"
proof (induction K n rule: ValidateTree.induct)
  case (1 K n)
  have vt: "ValidateTree K n =
      (if Validate K n \<noteq> kNone then Validate K n
       else validate_children (ValidateTree K) (children n))"
    by (simp add: ValidateTree.simps [of K n] Let_def)
  show ?case
  proof (cases "Validate K n = kNone")
    case False
    then show ?thesis by (subst preorder_unfold) (simp add: vt)
  next
    case True
    have "validate_children (ValidateTree K) (children n) =
        first_error (map (Validate K)
          (concat (map (\<lambda>ch. case ch of None \<Rightarrow> [] | Some c \<Rightarrow> preorder c) (children n))))"
      using 1 True by (intro validate_children_first_error) simp
    then show ?thesis using True by (subst preorder_unfold) (simp add: vt)
  qed
qed

text \<open>
  C9. \<^verbatim>\<open>Validate\<close> returns the first violated rule in the order: more children
  than the capacity \<open>K\<close>; a null child; a leaf with no tick callback; an inverter
  without exactly one child; a parallel node with more children than the bitmap is
  wide. It returns \<open>kNone\<close> exactly when no rule is violated, and it is not recursive:
  its result depends on the node's own members and on which child references are null,
  not on the children. \<^verbatim>\<open>ValidateTree\<close> returns the first error that
  \<^verbatim>\<open>Validate\<close> finds in the pre-order of the subtree, and \<open>kNone\<close> exactly when
  every node of the subtree passes.
\<close>

theorem Validate_first_violated_rule:
  "(children_count n > K \<longrightarrow> Validate K n = kChildrenExceedMax)
   \<and> (children_count n \<le> K \<and> None \<in> set (children n) \<longrightarrow> Validate K n = kNullChild)
   \<and> (children_count n \<le> K \<and> None \<notin> set (children n)
        \<and> IsLeafType (type (members n)) \<and> tick (members n) = None
      \<longrightarrow> Validate K n = kLeafMissingTick)
   \<and> (children_count n \<le> K \<and> None \<notin> set (children n)
        \<and> type (members n) = kInverter \<and> children_count n \<noteq> 1
      \<longrightarrow> Validate K n = kInverterNotOneChild)
   \<and> (children_count n \<le> K \<and> None \<notin> set (children n)
        \<and> type (members n) = kParallel \<and> children_count n > kMaxParallelChildren
      \<longrightarrow> Validate K n = kParallelExceedsBitmap)
   \<and> (Validate K n = kNone \<longleftrightarrow>
        children_count n \<le> K \<and> None \<notin> set (children n)
        \<and> \<not> (IsLeafType (type (members n)) \<and> tick (members n) = None)
        \<and> \<not> (type (members n) = kInverter \<and> children_count n \<noteq> 1)
        \<and> \<not> (type (members n) = kParallel \<and> children_count n > kMaxParallelChildren))
   \<and> (members n2 = members n
        \<and> map (\<lambda>ch. ch = None) (children n2) = map (\<lambda>ch. ch = None) (children n)
      \<longrightarrow> Validate K n2 = Validate K n)
   \<and> ValidateTree K n = first_error (map (Validate K) (preorder n))
   \<and> (ValidateTree K n = kNone \<longleftrightarrow> (\<forall>m \<in> set (preorder n). Validate K m = kNone))"
proof (intro conjI)
  show "children_count n > K \<longrightarrow> Validate K n = kChildrenExceedMax"
    by (simp add: Validate_def)
  show "children_count n \<le> K \<and> None \<in> set (children n) \<longrightarrow> Validate K n = kNullChild"
    by (simp add: Validate_def has_null_child_iff)
  show "children_count n \<le> K \<and> None \<notin> set (children n)
        \<and> IsLeafType (type (members n)) \<and> tick (members n) = None
      \<longrightarrow> Validate K n = kLeafMissingTick"
    by (simp add: Validate_def has_null_child_iff)
  show "children_count n \<le> K \<and> None \<notin> set (children n)
        \<and> type (members n) = kInverter \<and> children_count n \<noteq> 1
      \<longrightarrow> Validate K n = kInverterNotOneChild"
    by (simp add: Validate_def has_null_child_iff IsLeafType_def)
  show "children_count n \<le> K \<and> None \<notin> set (children n)
        \<and> type (members n) = kParallel \<and> children_count n > kMaxParallelChildren
      \<longrightarrow> Validate K n = kParallelExceedsBitmap"
    by (simp add: Validate_def has_null_child_iff IsLeafType_def)
  show "Validate K n = kNone \<longleftrightarrow>
        children_count n \<le> K \<and> None \<notin> set (children n)
        \<and> \<not> (IsLeafType (type (members n)) \<and> tick (members n) = None)
        \<and> \<not> (type (members n) = kInverter \<and> children_count n \<noteq> 1)
        \<and> \<not> (type (members n) = kParallel \<and> children_count n > kMaxParallelChildren)"
    by (simp add: Validate_def has_null_child_iff)
  show "members n2 = members n
        \<and> map (\<lambda>ch. ch = None) (children n2) = map (\<lambda>ch. ch = None) (children n)
      \<longrightarrow> Validate K n2 = Validate K n"
  proof
    assume a: "members n2 = members n
        \<and> map (\<lambda>ch. ch = None) (children n2) = map (\<lambda>ch. ch = None) (children n)"
    then have len: "length (children n2) = length (children n)"
      by (intro map_eq_imp_length_eq) blast
    from a have m: "map (\<lambda>ch. ch = None) (children n2) = map (\<lambda>ch. ch = None) (children n)"
      by blast
    have img: "(\<lambda>ch. ch = None) ` set (children n2) = (\<lambda>ch. ch = None) ` set (children n)"
      using arg_cong [OF m, of set] by (simp only: set_map)
    have "(None \<in> set cs) = (True \<in> (\<lambda>ch. ch = None) ` set cs)"
      for cs :: "'a Node option list"
      by auto
    then have nul: "(None \<in> set (children n2)) = (None \<in> set (children n))"
      by (simp only: img)
    have mem: "members n2 = members n" using a by blast
    show "Validate K n2 = Validate K n"
      by (simp only: Validate_def children_count_def has_null_child_iff len nul mem)
  qed
  show "ValidateTree K n = first_error (map (Validate K) (preorder n))"
    by (rule ValidateTree_first_error)
  show "ValidateTree K n = kNone \<longleftrightarrow> (\<forall>m \<in> set (preorder n). Validate K m = kNone)"
    by (simp add: ValidateTree_first_error first_error_kNone)
qed

theorem Validate_first_violated_rule_witness:
  "Validate 8 ex_unbound = kLeafMissingTick
   \<and> Validate 8 ex_seq_null = kNullChild
   \<and> Validate 1 ex_seq_null = kChildrenExceedMax
   \<and> Validate 8 ex_seq_deep = kNone
   \<and> ValidateTree 8 ex_seq_deep = kLeafMissingTick"
proof -
  have a: "children_count ex_unbound \<le> 8 \<and> None \<notin> set (children ex_unbound)
      \<and> IsLeafType (type (members ex_unbound)) \<and> tick (members ex_unbound) = None"
    by (simp add: ex_defs children_count_def IsLeafType_def)
  have b: "children_count ex_seq_null \<le> 8 \<and> None \<in> set (children ex_seq_null)"
    by (simp add: ex_defs children_count_def)
  have c: "children_count ex_seq_null > 1"
    by (simp add: ex_defs children_count_def)
  have d: "preorder ex_seq_deep = [ex_seq_deep, ex_leaf kSuccess, ex_unbound]"
    by (simp add: ex_defs)
  have e: "Validate 8 ex_seq_deep = kNone" "Validate 8 (ex_leaf kSuccess) = kNone"
    by (simp_all add: ex_defs Validate_def children_count_def IsLeafType_def)
  note r1 = Validate_first_violated_rule [where n = ex_unbound and K = 8]
  note r2 = Validate_first_violated_rule [where n = ex_seq_null and K = 8]
  note r3 = Validate_first_violated_rule [where n = ex_seq_null and K = 1]
  note r4 = Validate_first_violated_rule [where n = ex_seq_deep and K = 8]
  have 1: "Validate 8 ex_unbound = kLeafMissingTick" using r1 a by blast
  have 2: "Validate 8 ex_seq_null = kNullChild" using r2 b by blast
  have 3: "Validate 1 ex_seq_null = kChildrenExceedMax" using r3 c by blast
  have "ValidateTree 8 ex_seq_deep = first_error (map (Validate 8) (preorder ex_seq_deep))"
    using r4 by blast
  then have 4: "ValidateTree 8 ex_seq_deep = kLeafMissingTick"
    by (simp add: d e 1)
  show ?thesis using 1 2 3 4 e(1) by simp
qed

section \<open>Reading the log\<close>

lemma own_ticks_simps [simp]:
  "own_ticks [] = []"
  "own_ticks (e # ev) = own_tick e @ own_ticks ev"
  "own_ticks (a @ b) = own_ticks a @ own_ticks b"
  by (simp_all add: own_ticks_def)

lemma child_ticks_simps [simp]:
  "child_ticks [] = []"
  "child_ticks (e # ev) = child_tick e @ child_ticks ev"
  "child_ticks (a @ b) = child_ticks a @ child_ticks b"
  by (simp_all add: child_ticks_def)

lemma own_tick_at_child [simp]: "own_tick (at_child i e) = []"
  by (cases e) simp_all

lemma own_ticks_at_child [simp]: "own_ticks (map (at_child i) ev) = []"
  by (induction ev) simp_all

lemma child_tick_at_child: "child_tick (at_child i e) = map (\<lambda>s. (i, s)) (own_tick e)"
  by (cases e rule: own_tick.cases) simp_all

lemma child_ticks_at_child: "child_ticks (map (at_child i) ev) = map (\<lambda>s. (i, s)) (own_ticks ev)"
  by (induction ev) (simp_all add: child_tick_at_child)

lemma CallEnter_log: "CallEnter n ctx = (c, ev) \<Longrightarrow> own_ticks ev = [] \<and> child_ticks ev = []"
  by (auto simp: CallEnter_def split: option.splits)

lemma CallExit_log: "CallExit n ctx = (c, ev) \<Longrightarrow> own_ticks ev = [] \<and> child_ticks ev = []"
  by (auto simp: CallExit_def split: option.splits)

lemma seq_loop_own: "seq_loop tk cs i ctx = (st, cur, cs', ctx', ev) \<Longrightarrow> own_ticks ev = []"
proof (induction cs arbitrary: i ctx st cur cs' ctx' ev)
  case Nil
  then show ?case by simp
next
  case (Cons ch cs)
  show ?case
  proof (cases ch)
    case None
    then show ?thesis using Cons.prems by simp
  next
    case (Some c)
    obtain s c' ctx1 ev1 where t: "tk c ctx = (s, c', ctx1, ev1)" by (cases "tk c ctx") auto
    obtain st2 cur2 cs2 ctx2 ev2 where r: "seq_loop tk cs (i + 1) ctx1 = (st2, cur2, cs2, ctx2, ev2)"
      by (cases "seq_loop tk cs (i + 1) ctx1") auto
    have "own_ticks ev2 = []" using Cons.IH r by blast
    then show ?thesis using Cons.prems Some t r by (auto split: if_splits)
  qed
qed

lemma sel_loop_own: "sel_loop tk cs i ctx = (st, cur, cs', ctx', ev) \<Longrightarrow> own_ticks ev = []"
proof (induction cs arbitrary: i ctx st cur cs' ctx' ev)
  case Nil
  then show ?case by simp
next
  case (Cons ch cs)
  show ?case
  proof (cases ch)
    case None
    then show ?thesis using Cons.prems by simp
  next
    case (Some c)
    obtain s c' ctx1 ev1 where t: "tk c ctx = (s, c', ctx1, ev1)" by (cases "tk c ctx") auto
    obtain st2 cur2 cs2 ctx2 ev2 where r: "sel_loop tk cs (i + 1) ctx1 = (st2, cur2, cs2, ctx2, ev2)"
      by (cases "sel_loop tk cs (i + 1) ctx1") auto
    have "own_ticks ev2 = []" using Cons.IH r by blast
    then show ?thesis using Cons.prems Some t r by (auto split: if_splits)
  qed
qed

lemma par_child_own:
  "par_child tk ch i d s cnt ctx = (cnt', d', s', ch', ctx', ev) \<Longrightarrow> own_ticks ev = []"
  by (cases cnt; cases ch)
     (auto simp: par_child_def Let_def split: if_splits prod.splits)

lemma par_loop_own:
  "par_loop tk cs i d s cnt ctx = (cnt', d', s', cs', ctx', ev) \<Longrightarrow> own_ticks ev = []"
proof (induction cs arbitrary: i d s cnt ctx cnt' d' s' cs' ctx' ev)
  case Nil
  then show ?case by simp
next
  case (Cons ch cs)
  obtain cnt1 d1 s1 ch1 ctx1 ev1 where
    b: "par_child tk ch i d s cnt ctx = (cnt1, d1, s1, ch1, ctx1, ev1)"
    by (cases "par_child tk ch i d s cnt ctx") auto
  obtain cnt2 d2 s2 cs2 ctx2 ev2 where
    r: "par_loop tk cs (i + 1) d1 s1 cnt1 ctx1 = (cnt2, d2, s2, cs2, ctx2, ev2)"
    by (cases "par_loop tk cs (i + 1) d1 s1 cnt1 ctx1") auto
  have "own_ticks ev1 = []" using b by (rule par_child_own)
  moreover have "own_ticks ev2 = []" using Cons.IH r by blast
  ultimately show ?case using Cons.prems b r by auto
qed

lemma TickLeaf_own: "TickLeaf n ctx = (st, n', ctx', ev) \<Longrightarrow> own_ticks ev = []"
  by (auto simp: TickLeaf_def CallEnter_def CallExit_def split: option.splits prod.splits if_splits)

lemma TickSequence_own: "TickSequence tk n ctx = (st, n', ctx', ev) \<Longrightarrow> own_ticks ev = []"
  by (auto simp: TickSequence_def Let_def split: prod.splits if_splits
      dest!: seq_loop_own CallEnter_log CallExit_log)

lemma TickSelector_own: "TickSelector tk n ctx = (st, n', ctx', ev) \<Longrightarrow> own_ticks ev = []"
  by (auto simp: TickSelector_def Let_def split: prod.splits if_splits
      dest!: sel_loop_own CallEnter_log CallExit_log)

lemma TickParallel_own: "TickParallel tk n ctx = (st, n', ctx', ev) \<Longrightarrow> own_ticks ev = []"
  by (auto simp: TickParallel_def Let_def split: prod.splits if_splits
      dest!: par_loop_own CallEnter_log CallExit_log)

lemma TickInverter_own: "TickInverter tk n ctx = (st, n', ctx', ev) \<Longrightarrow> own_ticks ev = []"
  by (auto simp: TickInverter_def Let_def split: prod.splits if_splits option.splits
      dest!: CallEnter_log CallExit_log)

lemma Tick_own: "Tick n ctx = (st, n', ctx', ev) \<Longrightarrow> own_ticks ev = [st]"
  by (cases "type (members n)")
     (auto simp: Tick.simps split: prod.splits
       dest: TickLeaf_own TickSequence_own TickSelector_own TickParallel_own TickInverter_own)

lemma Tick_child_ticks:
  "Tick c ctx = (s, c', ctx1, ev1) \<Longrightarrow> child_ticks (map (at_child i) ev1) = [(i, s)]"
  by (simp add: child_ticks_at_child Tick_own)

section \<open>The scan of a sequence\<close>

lemma seq_loop_Cons_cases:
  assumes "seq_loop Tick (ch # cs) i ctx = (st, cur, cs', ctx', ev)"
  obtains
    (null) "ch = None" "st = kError" "cur = None" "cs' = ch # cs" "child_ticks ev = []"
  | (stop) c c' s where "ch = Some c" "s \<noteq> kSuccess" "st = s" "cur = Some i"
      "cs' = Some c' # cs" "child_ticks ev = [(i, s)]"
  | (continue) c c' ctx1 cs2 ev2 where "ch = Some c"
      "seq_loop Tick cs (i + 1) ctx1 = (st, cur, cs2, ctx', ev2)"
      "cs' = Some c' # cs2" "child_ticks ev = (i, kSuccess) # child_ticks ev2"
proof (cases ch)
  case None
  then show ?thesis using assms null by simp
next
  case (Some c)
  obtain s c' ctx1 ev1 where t: "Tick c ctx = (s, c', ctx1, ev1)"
    by (cases "Tick c ctx") auto
  note ct = Tick_child_ticks [OF t, of i]
  show ?thesis
  proof (cases "s = kSuccess")
    case False
    then show ?thesis using assms Some t ct stop [of c s c'] by (auto split: if_splits)
  next
    case True
    obtain st2 cur2 cs2 ctx2 ev2 where
      r: "seq_loop Tick cs (i + 1) ctx1 = (st2, cur2, cs2, ctx2, ev2)"
      by (cases "seq_loop Tick cs (i + 1) ctx1") auto
    show ?thesis using assms Some t ct True r continue [of c ctx1 cs2 ev2 c'] by auto
  qed
qed

lemma upt_from: "[i ..< i + Suc L] = i # [Suc i ..< Suc i + L]"
proof -
  have "[i ..< Suc i + L] = i # [Suc i ..< Suc i + L]"
    by (rule upt_conv_Cons) simp
  moreover have "i + Suc L = Suc i + L" by simp
  ultimately show ?thesis by (simp only:)
qed


lemma seq_loop_range:
  "seq_loop Tick cs i ctx = (st, cur, cs', ctx', ev) \<Longrightarrow> (j, s) \<in> set (child_ticks ev)
   \<Longrightarrow> i \<le> j \<and> j < i + length cs \<and> cs ! (j - i) \<noteq> None"
proof (induction cs arbitrary: i cs' ctx ev)
  case Nil
  then show ?case by simp
next
  case (Cons ch cs)
  from Cons.prems(1) show ?case
  proof (cases rule: seq_loop_Cons_cases)
    case null
    then show ?thesis using Cons.prems(2) by simp
  next
    case (stop c c' s)
    then show ?thesis using Cons.prems(2) by simp
  next
    case (continue c c' ctx1 cs2 ev2)
    show ?thesis
    proof (cases "j = i")
      case True
      then show ?thesis using continue by simp
    next
      case False
      then have "(j, s) \<in> set (child_ticks ev2)" using Cons.prems(2) continue(4) by auto
      from Cons.IH [OF continue(2) this] show ?thesis by (auto simp: Suc_diff_le)
    qed
  qed
qed

lemma seq_loop_only_last_not_success:
  "seq_loop Tick cs i ctx = (st, cur, cs', ctx', ev) \<Longrightarrow> Suc k < length (child_ticks ev)
   \<Longrightarrow> snd (child_ticks ev ! k) = kSuccess"
proof (induction cs arbitrary: i cs' ctx ev k)
  case Nil
  then show ?case by simp
next
  case (Cons ch cs)
  from Cons.prems(1) show ?case
  proof (cases rule: seq_loop_Cons_cases)
    case null
    then show ?thesis using Cons.prems(2) by simp
  next
    case (stop c c' s)
    then show ?thesis using Cons.prems(2) by simp
  next
    case (continue c c' ctx1 cs2 ev2)
    show ?thesis
    proof (cases k)
      case 0
      then show ?thesis using continue by simp
    next
      case (Suc k')
      then have "Suc k' < length (child_ticks ev2)" using Cons.prems(2) continue(4) by simp
      from Cons.IH [OF continue(2) this] show ?thesis using Suc continue(4) by simp
    qed
  qed
qed

lemma seq_loop_last:
  "seq_loop Tick cs i ctx = (st, cur, cs', ctx', ev) \<Longrightarrow> child_ticks ev \<noteq> []
   \<Longrightarrow> snd (last (child_ticks ev)) \<noteq> kSuccess
   \<Longrightarrow> st = snd (last (child_ticks ev)) \<and> cur = Some (fst (last (child_ticks ev)))"
proof (induction cs arbitrary: i cs' ctx ev)
  case Nil
  then show ?case by simp
next
  case (Cons ch cs)
  from Cons.prems(1) show ?case
  proof (cases rule: seq_loop_Cons_cases)
    case null
    then show ?thesis using Cons.prems by simp
  next
    case (stop c c' s)
    then show ?thesis using Cons.prems by simp
  next
    case (continue c c' ctx1 cs2 ev2)
    have ne: "child_ticks ev2 \<noteq> []" using Cons.prems(3) continue(4) by (auto split: if_splits)
    then have "snd (last (child_ticks ev2)) \<noteq> kSuccess" using Cons.prems(3) continue(4) by simp
    from Cons.IH [OF continue(2) ne this] show ?thesis using continue(4) ne by simp
  qed
qed




lemma seq_loop_null:
  "seq_loop Tick cs i ctx = (st, cur, cs', ctx', ev) \<Longrightarrow> k < length cs \<Longrightarrow> cs ! k = None
   \<Longrightarrow> (\<And>j. j < k \<Longrightarrow> (i + j, kSuccess) \<in> set (child_ticks ev))
   \<Longrightarrow> st = kError"
proof (induction cs arbitrary: i cs' ctx ev k)
  case Nil
  then show ?case by simp
next
  case (Cons ch cs)
  from Cons.prems(1) show ?case
  proof (cases rule: seq_loop_Cons_cases)
    case null
    then show ?thesis by simp
  next
    case (stop c c' s)
    then obtain k' where "k = Suc k'" using Cons.prems(3) by (cases k) auto
    then have "(i + 0, kSuccess) \<in> set (child_ticks ev)" using Cons.prems(4) [of 0] by simp
    then show ?thesis using stop by simp
  next
    case (continue c c' ctx1 cs2 ev2)
    then obtain k' where k': "k = Suc k'" using Cons.prems(3) by (cases k) auto
    have "\<And>j. j < k' \<Longrightarrow> (i + 1 + j, kSuccess) \<in> set (child_ticks ev2)"
    proof -
      fix j assume "j < k'"
      then have "(i + Suc j, kSuccess) \<in> set (child_ticks ev)" using Cons.prems(4) [of "Suc j"] k' by simp
      then show "(i + 1 + j, kSuccess) \<in> set (child_ticks ev2)" using continue(4) by auto
    qed
    from Cons.IH [OF continue(2) _ _ this, of k'] show ?thesis using Cons.prems(2,3) k' by simp
  qed
qed

section \<open>Sequence\<close>


lemma Tick_Sequence_unfold:
  assumes "type (members n) = kSequence" and "Tick n ctx = (st, n', ctx', ev)"
    and "start = (if status (members n) \<noteq> kRunning then 0 else current_child (members n))"
  obtains ctx0 ev0 cur cs' ctx1 ev1 ev2 where
    "seq_loop Tick (drop start (children n)) start ctx0 = (st, cur, cs', ctx1, ev1)"
    "children n' = take start (children n) @ cs'"
    "members n' = (members n)\<lparr>status := st,
        current_child := (case cur of None \<Rightarrow> start | Some i \<Rightarrow> i)\<rparr>"
    "(ctx0, ev0) = (if status (members n) \<noteq> kRunning then CallEnter n ctx else (ctx, []))"
    "(ctx', ev2) = (if st \<noteq> kRunning then CallExit n ctx1 else (ctx1, []))"
    "ev = ev0 @ ev1 @ ev2 @ [EvTick [] st]"
    "child_ticks ev = child_ticks ev1"
proof -
  obtain ctx0 ev0 where
    en: "(if status (members n) \<noteq> kRunning then CallEnter n ctx else (ctx, [])) = (ctx0, ev0)"
    by (cases "if status (members n) \<noteq> kRunning then CallEnter n ctx else (ctx, [])") auto
  obtain st1 cur cs' ctx1 ev1 where
    lp: "seq_loop Tick (drop start (children n)) start ctx0 = (st1, cur, cs', ctx1, ev1)"
    by (cases "seq_loop Tick (drop start (children n)) start ctx0") auto
  obtain ctx2 ev2 where
    ex: "(if st1 \<noteq> kRunning then CallExit n ctx1 else (ctx1, [])) = (ctx2, ev2)"
    by (cases "if st1 \<noteq> kRunning then CallExit n ctx1 else (ctx1, [])") auto
  have s0: "(if status (members n) \<noteq> kRunning then 0 else current_child (members n)) = start"
    using assms(3) by simp
  have "Tick n ctx = (st1, Node ((members n)\<lparr>status := st1,
        current_child := (case cur of None \<Rightarrow> start | Some i \<Rightarrow> i)\<rparr>)
        (take start (children n) @ cs'), ctx2, (ev0 @ ev1 @ ev2) @ [EvTick [] st1])"
    using assms(1) en lp ex unfolding assms(3)
    by (simp add: Tick.simps [of n ctx] TickSequence_def Let_def split del: if_split cong: if_cong)
  with assms(2) have r: "st = st1"
      "n' = Node ((members n)\<lparr>status := st1,
        current_child := (case cur of None \<Rightarrow> start | Some i \<Rightarrow> i)\<rparr>)
        (take start (children n) @ cs')"
      "ctx' = ctx2" "ev = ev0 @ ev1 @ ev2 @ [EvTick [] st1]"
    by auto
  have c0: "child_ticks ev0 = []"
    using en CallEnter_log [of n ctx ctx0 ev0] by (auto split: if_splits)
  have c2: "child_ticks ev2 = []"
    using ex CallExit_log [of n ctx1 ctx2 ev2] by (auto split: if_splits)
  show ?thesis
    using that [of ctx0 cur cs' ctx1 ev1 ev0 ev2] r lp en ex c0 c2 by simp
qed




section \<open>The scan of a selector\<close>

lemma sel_loop_Cons_cases:
  assumes "sel_loop Tick (ch # cs) i ctx = (st, cur, cs', ctx', ev)"
  obtains
    (null) "ch = None" "st = kError" "cur = None" "cs' = ch # cs" "child_ticks ev = []"
  | (stop) c c' s where "ch = Some c" "s \<noteq> kFailure" "st = s" "cur = Some i"
      "cs' = Some c' # cs" "child_ticks ev = [(i, s)]"
  | (continue) c c' ctx1 cs2 ev2 where "ch = Some c"
      "sel_loop Tick cs (i + 1) ctx1 = (st, cur, cs2, ctx', ev2)"
      "cs' = Some c' # cs2" "child_ticks ev = (i, kFailure) # child_ticks ev2"
proof (cases ch)
  case None
  then show ?thesis using assms null by simp
next
  case (Some c)
  obtain s c' ctx1 ev1 where t: "Tick c ctx = (s, c', ctx1, ev1)"
    by (cases "Tick c ctx") auto
  note ct = Tick_child_ticks [OF t, of i]
  show ?thesis
  proof (cases "s = kFailure")
    case False
    then show ?thesis using assms Some t ct stop [of c s c'] by (cases s) auto
  next
    case True
    obtain st2 cur2 cs2 ctx2 ev2 where
      r: "sel_loop Tick cs (i + 1) ctx1 = (st2, cur2, cs2, ctx2, ev2)"
      by (cases "sel_loop Tick cs (i + 1) ctx1") auto
    show ?thesis using assms Some t ct True r continue [of c ctx1 cs2 ev2 c'] by auto
  qed
qed

lemma sel_loop_order:
  "sel_loop Tick cs i ctx = (st, cur, cs', ctx', ev)
   \<Longrightarrow> map fst (child_ticks ev) = [i ..< i + length (child_ticks ev)]"
proof (induction cs arbitrary: i cs' ctx ev)
  case Nil
  then show ?case by simp
next
  case (Cons ch cs)
  from Cons.prems show ?case
  proof (cases rule: sel_loop_Cons_cases)
    case null
    then show ?thesis by simp
  next
    case (stop c c' s)
    then show ?thesis by simp
  next
    case (continue c c' ctx1 cs2 ev2)
    have "map fst (child_ticks ev) = i # map fst (child_ticks ev2)"
      using continue(4) by simp
    also have "map fst (child_ticks ev2) = [Suc i ..< Suc i + length (child_ticks ev2)]"
      using Cons.IH [OF continue(2)] by simp
    also have "i # [Suc i ..< Suc i + length (child_ticks ev2)] =
        [i ..< i + Suc (length (child_ticks ev2))]"
      by (rule upt_from [symmetric])
    also have "Suc (length (child_ticks ev2)) = length (child_ticks ev)"
      using continue(4) by simp
    finally show ?thesis .
  qed
qed

lemma sel_loop_range:
  "sel_loop Tick cs i ctx = (st, cur, cs', ctx', ev) \<Longrightarrow> (j, s) \<in> set (child_ticks ev)
   \<Longrightarrow> i \<le> j \<and> j < i + length cs \<and> cs ! (j - i) \<noteq> None"
proof (induction cs arbitrary: i cs' ctx ev)
  case Nil
  then show ?case by simp
next
  case (Cons ch cs)
  from Cons.prems(1) show ?case
  proof (cases rule: sel_loop_Cons_cases)
    case null
    then show ?thesis using Cons.prems(2) by simp
  next
    case (stop c c' s)
    then show ?thesis using Cons.prems(2) by simp
  next
    case (continue c c' ctx1 cs2 ev2)
    show ?thesis
    proof (cases "j = i")
      case True
      then show ?thesis using continue by simp
    next
      case False
      then have "(j, s) \<in> set (child_ticks ev2)" using Cons.prems(2) continue(4) by auto
      from Cons.IH [OF continue(2) this] show ?thesis by (auto simp: Suc_diff_le)
    qed
  qed
qed

lemma sel_loop_only_last_not_failure:
  "sel_loop Tick cs i ctx = (st, cur, cs', ctx', ev) \<Longrightarrow> Suc k < length (child_ticks ev)
   \<Longrightarrow> snd (child_ticks ev ! k) = kFailure"
proof (induction cs arbitrary: i cs' ctx ev k)
  case Nil
  then show ?case by simp
next
  case (Cons ch cs)
  from Cons.prems(1) show ?case
  proof (cases rule: sel_loop_Cons_cases)
    case null
    then show ?thesis using Cons.prems(2) by simp
  next
    case (stop c c' s)
    then show ?thesis using Cons.prems(2) by simp
  next
    case (continue c c' ctx1 cs2 ev2)
    show ?thesis
    proof (cases k)
      case 0
      then show ?thesis using continue by simp
    next
      case (Suc k')
      then have "Suc k' < length (child_ticks ev2)" using Cons.prems(2) continue(4) by simp
      from Cons.IH [OF continue(2) this] show ?thesis using Suc continue(4) by simp
    qed
  qed
qed

lemma sel_loop_last:
  "sel_loop Tick cs i ctx = (st, cur, cs', ctx', ev) \<Longrightarrow> child_ticks ev \<noteq> []
   \<Longrightarrow> snd (last (child_ticks ev)) \<noteq> kFailure
   \<Longrightarrow> st = snd (last (child_ticks ev)) \<and> cur = Some (fst (last (child_ticks ev)))"
proof (induction cs arbitrary: i cs' ctx ev)
  case Nil
  then show ?case by simp
next
  case (Cons ch cs)
  from Cons.prems(1) show ?case
  proof (cases rule: sel_loop_Cons_cases)
    case null
    then show ?thesis using Cons.prems by simp
  next
    case (stop c c' s)
    then show ?thesis using Cons.prems by simp
  next
    case (continue c c' ctx1 cs2 ev2)
    have ne: "child_ticks ev2 \<noteq> []" using Cons.prems(3) continue(4) by (auto split: if_splits)
    then have "snd (last (child_ticks ev2)) \<noteq> kFailure" using Cons.prems(3) continue(4) by simp
    from Cons.IH [OF continue(2) ne this] show ?thesis using continue(4) ne by simp
  qed
qed

lemma sel_loop_cursor:
  "sel_loop Tick cs i ctx = (st, cur, cs', ctx', ev)
   \<Longrightarrow> cur = (if child_ticks ev \<noteq> [] \<and> snd (last (child_ticks ev)) \<noteq> kFailure
              then Some (fst (last (child_ticks ev))) else None)"
proof (induction cs arbitrary: i cs' ctx ev)
  case Nil
  then show ?case by simp
next
  case (Cons ch cs)
  from Cons.prems(1) show ?case
  proof (cases rule: sel_loop_Cons_cases)
    case null
    then show ?thesis by simp
  next
    case (stop c c' s)
    then show ?thesis by simp
  next
    case (continue c c' ctx1 cs2 ev2)
    from Cons.IH [OF continue(2)] continue(4) show ?thesis by simp
  qed
qed

lemma sel_loop_all_failure:
  "sel_loop Tick cs i ctx = (st, cur, cs', ctx', ev)
   \<Longrightarrow> (\<And>j. i \<le> j \<Longrightarrow> j < i + length cs \<Longrightarrow> (j, kFailure) \<in> set (child_ticks ev))
   \<Longrightarrow> st = kFailure"
proof (induction cs arbitrary: i cs' ctx ev)
  case Nil
  then show ?case by simp
next
  case (Cons ch cs)
  have here: "(i, kFailure) \<in> set (child_ticks ev)" using Cons.prems(2) [of i] by simp
  from Cons.prems(1) show ?case
  proof (cases rule: sel_loop_Cons_cases)
    case null
    then show ?thesis using here by simp
  next
    case (stop c c' s)
    then show ?thesis using here by simp
  next
    case (continue c c' ctx1 cs2 ev2)
    have "\<And>j. i + 1 \<le> j \<Longrightarrow> j < i + 1 + length cs \<Longrightarrow> (j, kFailure) \<in> set (child_ticks ev2)"
    proof -
      fix j assume j: "i + 1 \<le> j" "j < i + 1 + length cs"
      then have "(j, kFailure) \<in> set (child_ticks ev)" using Cons.prems(2) [of j] by simp
      then show "(j, kFailure) \<in> set (child_ticks ev2)" using continue(4) j by auto
    qed
    from Cons.IH [OF continue(2) this] show ?thesis by simp
  qed
qed

lemma sel_loop_children:
  "sel_loop Tick cs i ctx = (st, cur, cs', ctx', ev)
   \<Longrightarrow> length cs' = length cs \<and>
       (\<forall>j < length cs. i + j \<notin> fst ` set (child_ticks ev) \<longrightarrow> cs' ! j = cs ! j)"
proof (induction cs arbitrary: i cs' ctx ev)
  case Nil
  then show ?case by auto
next
  case (Cons ch cs)
  from Cons.prems(1) show ?case
  proof (cases rule: sel_loop_Cons_cases)
    case null
    then show ?thesis by simp
  next
    case (stop c c' s)
    then show ?thesis by (auto simp: nth_Cons')
  next
    case (continue c c' ctx1 cs2 ev2)
    from Cons.IH [OF continue(2)] have
      len: "length cs2 = length cs" and
      same: "\<And>j. j < length cs \<Longrightarrow> Suc (i + j) \<notin> fst ` set (child_ticks ev2) \<Longrightarrow> cs2 ! j = cs ! j"
      by auto
    show ?thesis
    proof (intro conjI allI impI)
      show "length cs' = length (ch # cs)" using continue(3) len by simp
    next
      fix j assume j: "j < length (ch # cs)" "i + j \<notin> fst ` set (child_ticks ev)"
      then obtain j' where j': "j = Suc j'" using continue(4) by (cases j) auto
      then have "Suc (i + j') \<notin> fst ` set (child_ticks ev2)" using j(2) continue(4) by auto
      then show "cs' ! j = (ch # cs) ! j" using same [of j'] j(1) j' continue(3) by simp
    qed
  qed
qed

lemma sel_loop_null:
  "sel_loop Tick cs i ctx = (st, cur, cs', ctx', ev) \<Longrightarrow> k < length cs \<Longrightarrow> cs ! k = None
   \<Longrightarrow> (\<And>j. j < k \<Longrightarrow> (i + j, kFailure) \<in> set (child_ticks ev))
   \<Longrightarrow> st = kError"
proof (induction cs arbitrary: i cs' ctx ev k)
  case Nil
  then show ?case by simp
next
  case (Cons ch cs)
  from Cons.prems(1) show ?case
  proof (cases rule: sel_loop_Cons_cases)
    case null
    then show ?thesis by simp
  next
    case (stop c c' s)
    then obtain k' where "k = Suc k'" using Cons.prems(3) by (cases k) auto
    then have "(i + 0, kFailure) \<in> set (child_ticks ev)" using Cons.prems(4) [of 0] by simp
    then show ?thesis using stop by simp
  next
    case (continue c c' ctx1 cs2 ev2)
    then obtain k' where k': "k = Suc k'" using Cons.prems(3) by (cases k) auto
    have "\<And>j. j < k' \<Longrightarrow> (i + 1 + j, kFailure) \<in> set (child_ticks ev2)"
    proof -
      fix j assume "j < k'"
      then have "(i + Suc j, kFailure) \<in> set (child_ticks ev)" using Cons.prems(4) [of "Suc j"] k' by simp
      then show "(i + 1 + j, kFailure) \<in> set (child_ticks ev2)" using continue(4) by auto
    qed
    from Cons.IH [OF continue(2) _ _ this, of k'] show ?thesis using Cons.prems(2,3) k' by simp
  qed
qed

lemma sel_loop_continues:
  "sel_loop Tick cs i ctx = (st, cur, cs', ctx', ev) \<Longrightarrow> k < length cs \<Longrightarrow> cs ! k \<noteq> None
   \<Longrightarrow> (\<And>j. j < k \<Longrightarrow> (i + j, kFailure) \<in> set (child_ticks ev))
   \<Longrightarrow> i + k \<in> fst ` set (child_ticks ev)"
proof (induction cs arbitrary: i cs' ctx ev k)
  case Nil
  then show ?case by simp
next
  case (Cons ch cs)
  from Cons.prems(1) show ?case
  proof (cases rule: sel_loop_Cons_cases)
    case null
    then have "k \<noteq> 0" using Cons.prems(3) by (cases k) auto
    then have "(i + 0, kFailure) \<in> set (child_ticks ev)" using Cons.prems(4) [of 0] by simp
    then show ?thesis using null by simp
  next
    case (stop c c' s)
    show ?thesis
    proof (cases k)
      case 0
      then show ?thesis using stop by simp
    next
      case (Suc k')
      then have "(i + 0, kFailure) \<in> set (child_ticks ev)" using Cons.prems(4) [of 0] by simp
      then show ?thesis using stop by simp
    qed
  next
    case (continue c c' ctx1 cs2 ev2)
    show ?thesis
    proof (cases k)
      case 0
      then show ?thesis using continue by simp
    next
      case (Suc k')
      have "\<And>j. j < k' \<Longrightarrow> (i + 1 + j, kFailure) \<in> set (child_ticks ev2)"
      proof -
        fix j assume "j < k'"
        then have "(i + Suc j, kFailure) \<in> set (child_ticks ev)"
          using Cons.prems(4) [of "Suc j"] Suc by simp
        then show "(i + 1 + j, kFailure) \<in> set (child_ticks ev2)" using continue(4) by auto
      qed
      from Cons.IH [OF continue(2) _ _ this, of k'] show ?thesis
        using Cons.prems(2,3) Suc continue(4) by simp
    qed
  qed
qed

lemma Tick_Selector_unfold:
  assumes "type (members n) = kSelector" and "Tick n ctx = (st, n', ctx', ev)"
    and "start = (if status (members n) \<noteq> kRunning then 0 else current_child (members n))"
  obtains ctx0 ev0 cur cs' ctx1 ev1 ev2 where
    "sel_loop Tick (drop start (children n)) start ctx0 = (st, cur, cs', ctx1, ev1)"
    "children n' = take start (children n) @ cs'"
    "members n' = (members n)\<lparr>status := st,
        current_child := (case cur of None \<Rightarrow> start | Some i \<Rightarrow> i)\<rparr>"
    "(ctx0, ev0) = (if status (members n) \<noteq> kRunning then CallEnter n ctx else (ctx, []))"
    "(ctx', ev2) = (if st \<noteq> kRunning then CallExit n ctx1 else (ctx1, []))"
    "ev = ev0 @ ev1 @ ev2 @ [EvTick [] st]"
    "child_ticks ev = child_ticks ev1"
proof -
  obtain ctx0 ev0 where
    en: "(if status (members n) \<noteq> kRunning then CallEnter n ctx else (ctx, [])) = (ctx0, ev0)"
    by (cases "if status (members n) \<noteq> kRunning then CallEnter n ctx else (ctx, [])") auto
  obtain st1 cur cs' ctx1 ev1 where
    lp: "sel_loop Tick (drop start (children n)) start ctx0 = (st1, cur, cs', ctx1, ev1)"
    by (cases "sel_loop Tick (drop start (children n)) start ctx0") auto
  obtain ctx2 ev2 where
    ex: "(if st1 \<noteq> kRunning then CallExit n ctx1 else (ctx1, [])) = (ctx2, ev2)"
    by (cases "if st1 \<noteq> kRunning then CallExit n ctx1 else (ctx1, [])") auto
  have s0: "(if status (members n) \<noteq> kRunning then 0 else current_child (members n)) = start"
    using assms(3) by simp
  have "Tick n ctx = (st1, Node ((members n)\<lparr>status := st1,
        current_child := (case cur of None \<Rightarrow> start | Some i \<Rightarrow> i)\<rparr>)
        (take start (children n) @ cs'), ctx2, (ev0 @ ev1 @ ev2) @ [EvTick [] st1])"
    using assms(1) en lp ex unfolding assms(3)
    by (simp add: Tick.simps [of n ctx] TickSelector_def Let_def split del: if_split cong: if_cong)
  with assms(2) have r: "st = st1"
      "n' = Node ((members n)\<lparr>status := st1,
        current_child := (case cur of None \<Rightarrow> start | Some i \<Rightarrow> i)\<rparr>)
        (take start (children n) @ cs')"
      "ctx' = ctx2" "ev = ev0 @ ev1 @ ev2 @ [EvTick [] st1]"
    by auto
  have c0: "child_ticks ev0 = []"
    using en CallEnter_log [of n ctx ctx0 ev0] by (auto split: if_splits)
  have c2: "child_ticks ev2 = []"
    using ex CallExit_log [of n ctx1 ctx2 ev2] by (auto split: if_splits)
  show ?thesis
    using that [of ctx0 cur cs' ctx1 ev1 ev0 ev2] r lp en ex c0 c2 by simp
qed

text \<open>
  C5. One tick of a Selector node; \<open>start\<close> is the index the scan starts at (0 on a
  fresh entry, the saved cursor when the node was Running) and \<open>ticks\<close> lists the
  children ticked by this call, in order, each with the status it returned.
  The children ticked are those at \<open>start\<close>, \<open>start + 1\<close>, ... in this order; each
  of them is ticked once every child from \<open>start\<close> up to it has returned Failure (the
  scan continues past a Failure); all but the last one ticked returned Failure, so
  nothing is ticked after a child that returns Success, Running or Error. If the last
  one returned Running, the selector returns Running and the cursor is its index; if it
  returned Success (or Error), the selector returns that status. If every child from
  \<open>start\<close> on returned Failure, the selector returns Failure, and so it does when it
  has no children. The children that were not ticked are unchanged. The cursor is left
  at the last child ticked when that child did not return Failure, and at \<open>start\<close>
  otherwise (so at 0 after a fresh entry).
\<close>

theorem Selector_tick:
  assumes "type (members n) = kSelector"
    and "Tick n ctx = (st, n', ctx', ev)"
    and "start = (if status (members n) \<noteq> kRunning then 0 else current_child (members n))"
    and "ticks = child_ticks ev"
  shows "map fst ticks = [start ..< start + length ticks]
    \<and> (\<forall>k. start \<le> k \<and> k < children_count n \<and> ChildAt n k \<noteq> None
           \<and> (\<forall>j. start \<le> j \<and> j < k \<longrightarrow> (j, kFailure) \<in> set ticks)
         \<longrightarrow> k \<in> fst ` set ticks)
    \<and> (\<forall>k. Suc k < length ticks \<longrightarrow> snd (ticks ! k) = kFailure)
    \<and> (ticks \<noteq> [] \<and> snd (last ticks) = kRunning
         \<longrightarrow> st = kRunning \<and> current_child (members n') = fst (last ticks))
    \<and> (ticks \<noteq> [] \<and> (snd (last ticks) = kSuccess \<or> snd (last ticks) = kError)
         \<longrightarrow> st = snd (last ticks))
    \<and> ((\<forall>j. start \<le> j \<and> j < children_count n \<longrightarrow> (j, kFailure) \<in> set ticks)
         \<longrightarrow> st = kFailure)
    \<and> (children_count n = 0 \<longrightarrow> st = kFailure)
    \<and> children_count n' = children_count n
    \<and> (\<forall>j. j < children_count n \<and> j \<notin> fst ` set ticks \<longrightarrow> ChildAt n' j = ChildAt n j)
    \<and> current_child (members n') =
        (if ticks \<noteq> [] \<and> snd (last ticks) \<noteq> kFailure then fst (last ticks) else start)"
proof -
  from assms(1,2,3) obtain ctx0 ev0 cur cs' ctx1 ev1 ev2 where
    lp: "sel_loop Tick (drop start (children n)) start ctx0 = (st, cur, cs', ctx1, ev1)"
    and ch: "children n' = take start (children n) @ cs'"
    and mem: "members n' = (members n)\<lparr>status := st,
        current_child := (case cur of None \<Rightarrow> start | Some i \<Rightarrow> i)\<rparr>"
    and lg: "ev = ev0 @ ev1 @ ev2 @ [EvTick [] st]"
    and ct: "child_ticks ev = child_ticks ev1"
    by (rule Tick_Selector_unfold)
  have tk: "ticks = child_ticks ev1" using assms(4) ct by simp
  have len: "length cs' = length (drop start (children n))"
    using sel_loop_children [OF lp] by simp
  have bound: "j < length (children n)" if "start \<le> j" "j < start + length (drop start (children n))" for j
    using that by simp
  have c1: "map fst ticks = [start ..< start + length ticks]"
    unfolding tk by (rule sel_loop_order [OF lp])
  have c2: "k \<in> fst ` set ticks"
    if "start \<le> k" "k < children_count n" "ChildAt n k \<noteq> None"
      "\<forall>j. start \<le> j \<and> j < k \<longrightarrow> (j, kFailure) \<in> set ticks" for k
  proof -
    have a: "k - start < length (drop start (children n))"
      using that(1,2) by (simp add: children_count_def)
    have b: "drop start (children n) ! (k - start) \<noteq> None"
      using that(1,2,3) by (simp add: ChildAt_def children_count_def)
    have "start + (k - start) \<in> fst ` set (child_ticks ev1)"
    proof (rule sel_loop_continues [OF lp a b])
      fix j assume "j < k - start"
      then show "(start + j, kFailure) \<in> set (child_ticks ev1)" using that(4) tk by simp
    qed
    then show ?thesis using that(1) tk by simp
  qed
  have c3: "snd (ticks ! k) = kFailure" if "Suc k < length ticks" for k
    using sel_loop_only_last_not_failure [OF lp] that tk by simp
  have c4: "st = kRunning \<and> current_child (members n') = fst (last ticks)"
    if "ticks \<noteq> []" "snd (last ticks) = kRunning"
    using sel_loop_last [OF lp] that tk mem by simp
  have c5: "st = snd (last ticks)"
    if "ticks \<noteq> []" "snd (last ticks) = kSuccess \<or> snd (last ticks) = kError"
    using sel_loop_last [OF lp] that tk by auto
  have c6: "st = kFailure"
    if "\<forall>j. start \<le> j \<and> j < children_count n \<longrightarrow> (j, kFailure) \<in> set ticks"
  proof (rule sel_loop_all_failure [OF lp])
    fix j assume "start \<le> j" "j < start + length (drop start (children n))"
    then show "(j, kFailure) \<in> set (child_ticks ev1)"
      using that tk bound [of j] by (simp add: children_count_def)
  qed
  have c7: "st = kFailure" if "children_count n = 0"
    using lp that by (simp add: children_count_def)
  have c8: "children_count n' = children_count n"
    using ch len by (simp add: children_count_def)
  have c9: "ChildAt n' j = ChildAt n j" if "j < children_count n" "j \<notin> fst ` set ticks" for j
  proof (cases "j < start")
    case True
    then show ?thesis using that(1) ch c8 by (simp add: ChildAt_def children_count_def nth_append)
  next
    case False
    then have a: "j - start < length (drop start (children n))"
      using that(1) by (simp add: children_count_def)
    have "start + (j - start) \<notin> fst ` set (child_ticks ev1)" using that(2) tk False by simp
    then have "cs' ! (j - start) = drop start (children n) ! (j - start)"
      using sel_loop_children [OF lp] a by blast
    then show ?thesis using that(1) ch c8 False
      by (simp add: ChildAt_def children_count_def nth_append)
  qed
  have c10: "current_child (members n') =
      (if ticks \<noteq> [] \<and> snd (last ticks) \<noteq> kFailure then fst (last ticks) else start)"
    using sel_loop_cursor [OF lp] tk mem by simp
  show ?thesis using c1 c2 c3 c4 c5 c6 c7 c8 c9 c10 by blast
qed

lemma ex_sel_first:
  "Tick ex_sel 0 =
     (kSuccess,
      Node ((members ex_sel)\<lparr>status := kSuccess, current_child := 1\<rparr>)
        [Some (set_status kFailure (ex_leaf kFailure)), Some (set_status kSuccess (ex_leaf kSuccess)),
         Some (ex_leaf kFailure)],
      2,
      [EvLeaf [0], EvTick [0] kFailure, EvLeaf [1], EvTick [1] kSuccess, EvTick [] kSuccess])"
  by (simp add: ex_sel_def ex_defs tick_defs)

theorem Selector_tick_witness:
  "type (members ex_sel) = kSelector
   \<and> fst (Tick ex_sel 0) = kSuccess
   \<and> child_ticks (snd (snd (snd (Tick ex_sel 0)))) = [(0, kFailure), (1, kSuccess)]
   \<and> ChildAt (fst (snd (Tick ex_sel 0))) 2 = ChildAt ex_sel 2"
proof -
  have h1: "type (members ex_sel) = kSelector" by (simp add: ex_sel_def ex_defs)
  have h3: "0 = (if status (members ex_sel) \<noteq> kRunning then 0 else current_child (members ex_sel))"
    by (simp add: ex_sel_def ex_defs)
  have h4: "[(0, kFailure), (1, kSuccess)] =
      child_ticks [EvLeaf [0], EvTick [0] kFailure, EvLeaf [1], EvTick [1] kSuccess, EvTick [] kSuccess]"
    by simp
  have cnt: "children_count ex_sel = 3" by (simp add: ex_sel_def ex_defs children_count_def)
  show ?thesis
    using Selector_tick [OF h1 ex_sel_first h3 h4] h1 cnt by (simp add: ex_sel_first)
qed

section \<open>Parallel\<close>

lemma mask_test: "((d :: 32 word) AND 2 ^ i \<noteq> 0) = bit d i"
  by (simp add: and_exp_eq_0_iff_not_bit)

lemma bit_mask_set: "i < 32 \<Longrightarrow> bit ((d :: 32 word) OR 2 ^ i) j = (bit d j \<or> j = i)"
  by (auto simp: bit_or_iff bit_exp_iff)

lemma par_child_unfold:
  "par_child Tick ch i d s (r, sc, f) ctx =
      (if bit d i
       then (if bit s i then ((r, sc + 1, f), d, s, ch, ctx, [])
             else ((r, sc, f + 1), d, s, ch, ctx, []))
       else (case ch of
               None \<Rightarrow> ((r, sc, f + 1), d OR 2 ^ i, s, None, ctx, [])
             | Some child \<Rightarrow>
                 (case Tick child ctx of
                    (child_status, child', ctx1, ev1) \<Rightarrow>
                      if child_status = kRunning
                      then ((r + 1, sc, f), d, s, Some child', ctx1, map (at_child i) ev1)
                      else if child_status = kSuccess
                      then ((r, sc + 1, f), d OR 2 ^ i, s OR 2 ^ i, Some child', ctx1,
                            map (at_child i) ev1)
                      else ((r, sc, f + 1), d OR 2 ^ i, s, Some child', ctx1,
                            map (at_child i) ev1))))"
proof -
  have md: "(d AND 2 ^ i = 0) = (\<not> bit d i)" and ms: "(s AND 2 ^ i = 0) = (\<not> bit s i)"
    using mask_test [of d i] mask_test [of s i] by auto
  show ?thesis by (simp add: par_child_def Let_def md ms)
qed

lemma par_child_cases:
  assumes "par_child Tick ch i d s (r, sc, f) ctx = (cnt', d', s', ch', ctx', ev)" and "i < 32"
  obtains
    (cached_success) "bit d i" "bit s i" "cnt' = (r, sc + 1, f)" "d' = d" "s' = s"
      "ch' = ch" "ctx' = ctx" "ev = []"
  | (cached_failure) "bit d i" "\<not> bit s i" "cnt' = (r, sc, f + 1)" "d' = d" "s' = s"
      "ch' = ch" "ctx' = ctx" "ev = []"
  | (null) "\<not> bit d i" "ch = None" "cnt' = (r, sc, f + 1)" "d' = d OR 2 ^ i" "s' = s"
      "ch' = None" "ctx' = ctx" "ev = []"
  | (running) c c' ev1 where "\<not> bit d i" "ch = Some c" "Tick c ctx = (kRunning, c', ctx', ev1)"
      "cnt' = (r + 1, sc, f)" "d' = d" "s' = s" "ch' = Some c'" "ev = map (at_child i) ev1"
  | (success) c c' ev1 where "\<not> bit d i" "ch = Some c" "Tick c ctx = (kSuccess, c', ctx', ev1)"
      "cnt' = (r, sc + 1, f)" "d' = d OR 2 ^ i" "s' = s OR 2 ^ i"
      "ch' = Some c'" "ev = map (at_child i) ev1"
  | (failure) c c' ev1 st where "\<not> bit d i" "ch = Some c" "Tick c ctx = (st, c', ctx', ev1)"
      "st \<noteq> kRunning" "st \<noteq> kSuccess"
      "cnt' = (r, sc, f + 1)" "d' = d OR 2 ^ i" "s' = s"
      "ch' = Some c'" "ev = map (at_child i) ev1"
proof -
  note unfold = par_child_unfold
  show ?thesis
  proof (cases "bit d i")
    case True
    show ?thesis
    proof (cases "bit s i")
      case s: True
      have "cnt' = (r, sc + 1, f) \<and> d' = d \<and> s' = s \<and> ch' = ch \<and> ctx' = ctx \<and> ev = []"
        using assms(1) True s by (simp add: unfold)
      then show ?thesis using cached_success True s by blast
    next
      case s: False
      have "cnt' = (r, sc, f + 1) \<and> d' = d \<and> s' = s \<and> ch' = ch \<and> ctx' = ctx \<and> ev = []"
        using assms(1) True s by (simp add: unfold)
      then show ?thesis using cached_failure True s by blast
    qed
  next
    case False
    show ?thesis
    proof (cases ch)
      case None
      have "cnt' = (r, sc, f + 1) \<and> d' = d OR 2 ^ i \<and> s' = s \<and> ch' = None \<and> ctx' = ctx \<and> ev = []"
        using assms(1) False None by (simp add: unfold)
      then show ?thesis using null False None by blast
    next
      case (Some c)
      obtain st c' ctx1 ev1 where t: "Tick c ctx = (st, c', ctx1, ev1)"
        by (cases "Tick c ctx") auto
      consider "st = kRunning" | "st = kSuccess" | "st \<noteq> kRunning" "st \<noteq> kSuccess" by blast
      then show ?thesis
      proof cases
        case 1
        have "cnt' = (r + 1, sc, f) \<and> d' = d \<and> s' = s \<and> ch' = Some c' \<and> ctx' = ctx1
            \<and> ev = map (at_child i) ev1"
          using assms(1) False Some t 1 by (simp add: unfold)
        then show ?thesis using running [of c c' ev1] False Some t 1 by blast
      next
        case 2
        have "cnt' = (r, sc + 1, f) \<and> d' = d OR 2 ^ i \<and> s' = s OR 2 ^ i \<and> ch' = Some c'
            \<and> ctx' = ctx1 \<and> ev = map (at_child i) ev1"
          using assms(1) False Some t 2 by (simp add: unfold)
        then show ?thesis using success [of c c' ev1] False Some t 2 by blast
      next
        case 3
        have "cnt' = (r, sc, f + 1) \<and> d' = d OR 2 ^ i \<and> s' = s \<and> ch' = Some c'
            \<and> ctx' = ctx1 \<and> ev = map (at_child i) ev1"
          using assms(1) False Some t 3 by (simp add: unfold)
        then show ?thesis using failure [of c st c' ev1] False Some t 3 by blast
      qed
    qed
  qed
qed

lemma par_loop_Cons:
  assumes "par_loop Tick (ch # cs) i d s cnt ctx = (cnt', d', s', cs', ctx', ev)"
  obtains cnt1 d1 s1 ch1 ctx1 ev1 cs2 ev2 where
    "par_child Tick ch i d s cnt ctx = (cnt1, d1, s1, ch1, ctx1, ev1)"
    "par_loop Tick cs (i + 1) d1 s1 cnt1 ctx1 = (cnt', d', s', cs2, ctx', ev2)"
    "cs' = ch1 # cs2" "ev = ev1 @ ev2"
proof -
  obtain cnt1 d1 s1 ch1 ctx1 ev1 where
    b: "par_child Tick ch i d s cnt ctx = (cnt1, d1, s1, ch1, ctx1, ev1)"
    by (cases "par_child Tick ch i d s cnt ctx") auto
  obtain cnt2 d2 s2 cs2 ctx2 ev2 where
    r: "par_loop Tick cs (i + 1) d1 s1 cnt1 ctx1 = (cnt2, d2, s2, cs2, ctx2, ev2)"
    by (cases "par_loop Tick cs (i + 1) d1 s1 cnt1 ctx1") auto
  show ?thesis using assms b r that [of cnt1 d1 s1 ch1 ctx1 ev1 cs2 ev2] by simp
qed

text \<open>The loop body at index \<open>i\<close> changes bit \<open>i\<close> only, and only by setting it.\<close>

lemma par_child_bits:
  assumes "par_child Tick ch i d s cnt ctx = (cnt', d', s', ch', ctx', ev)" and "i < 32"
  shows "j \<noteq> i \<Longrightarrow> bit d' j = bit d j \<and> bit s' j = bit s j"
    and "bit d j \<Longrightarrow> bit d' j \<and> bit s' j = bit s j"
    and "bit s' j \<Longrightarrow> \<not> bit s j \<Longrightarrow> bit d' j"
proof -
  obtain r sc f where cnt: "cnt = (r, sc, f)" by (cases cnt) auto
  from assms(1) [unfolded cnt] assms(2)
  have "(j \<noteq> i \<longrightarrow> bit d' j = bit d j \<and> bit s' j = bit s j)
      \<and> (bit d j \<longrightarrow> bit d' j \<and> bit s' j = bit s j)
      \<and> (bit s' j \<and> \<not> bit s j \<longrightarrow> bit d' j)"
    by (cases rule: par_child_cases) (use assms(2) in \<open>auto simp: bit_mask_set\<close>)
  then show "j \<noteq> i \<Longrightarrow> bit d' j = bit d j \<and> bit s' j = bit s j"
    and "bit d j \<Longrightarrow> bit d' j \<and> bit s' j = bit s j"
    and "bit s' j \<Longrightarrow> \<not> bit s j \<Longrightarrow> bit d' j"
    by blast+
qed

lemma par_loop_bits_outside:
  "par_loop Tick cs i d s cnt ctx = (cnt', d', s', cs', ctx', ev) \<Longrightarrow> i + length cs \<le> 32
   \<Longrightarrow> j < i \<or> i + length cs \<le> j \<Longrightarrow> bit d' j = bit d j \<and> bit s' j = bit s j"
proof (induction cs arbitrary: i d s cnt ctx cs' ev)
  case Nil
  then show ?case by simp
next
  case (Cons ch cs)
  from Cons.prems(1) show ?case
  proof (cases rule: par_loop_Cons)
    case (1 cnt1 d1 s1 ch1 ctx1 ev1 cs2 ev2)
    have "j \<noteq> i" using Cons.prems(3) by auto
    then have "bit d1 j = bit d j \<and> bit s1 j = bit s j"
      using par_child_bits(1) [OF 1(1)] Cons.prems(2) by simp
    moreover have "bit d' j = bit d1 j \<and> bit s' j = bit s1 j"
      using Cons.IH [OF 1(2)] Cons.prems(2,3) by auto
    ultimately show ?thesis by simp
  qed
qed


lemma par_loop_bits_consistent:
  "par_loop Tick cs i d s cnt ctx = (cnt', d', s', cs', ctx', ev) \<Longrightarrow> i + length cs \<le> 32
   \<Longrightarrow> (\<And>j. bit s j \<Longrightarrow> bit d j) \<Longrightarrow> bit s' j \<Longrightarrow> bit d' j"
proof (induction cs arbitrary: i d s cnt ctx cs' ev j)
  case Nil
  then show ?case by simp
next
  case (Cons ch cs)
  from Cons.prems(1) show ?case
  proof (cases rule: par_loop_Cons)
    case (1 cnt1 d1 s1 ch1 ctx1 ev1 cs2 ev2)
    have i: "i < 32" using Cons.prems(2) by simp
    have "\<And>j. bit s1 j \<Longrightarrow> bit d1 j"
    proof -
      fix j assume a: "bit s1 j"
      show "bit d1 j"
      proof (cases "bit s j")
        case True
        then show ?thesis using par_child_bits(2) [OF 1(1) i] Cons.prems(3) by blast
      next
        case False
        then show ?thesis using par_child_bits(3) [OF 1(1) i a] by blast
      qed
    qed
    from Cons.IH [OF 1(2) _ this Cons.prems(4)] Cons.prems(2) show ?thesis by simp
  qed
qed

text \<open>The counter that the loop body increments tells what bit \<open>i\<close> says afterwards.\<close>

lemma par_child_count:
  assumes "par_child Tick ch i d s (r, sc, f) ctx = ((r1, sc1, f1), d1, s1, ch1, ctx1, ev1)"
    and "i < 32" and "bit s i \<longrightarrow> bit d i"
  shows "r1 = r + (if \<not> bit d1 i then 1 else 0)
    \<and> sc1 = sc + (if bit d1 i \<and> bit s1 i then 1 else 0)
    \<and> f1 = f + (if bit d1 i \<and> \<not> bit s1 i then 1 else 0)"
  using assms(1,2)
  by (cases rule: par_child_cases) (use assms(2,3) in \<open>auto simp: bit_mask_set\<close>)

text \<open>What the loop body logs: the tick of the child, if it is not done and not null.\<close>

lemma par_child_ticks:
  assumes "par_child Tick ch i d s (r, sc, f) ctx = (cnt1, d1, s1, ch1, ctx1, ev1)" and "i < 32"
  shows "(bit d i \<or> ch = None \<longrightarrow> ev1 = [] \<and> ch1 = ch \<and> ctx1 = ctx)
    \<and> (\<not> bit d i \<and> ch \<noteq> None \<longrightarrow>
          (\<exists>st. child_ticks ev1 = [(i, st)]
             \<and> (st = kRunning \<longleftrightarrow> \<not> bit d1 i) \<and> (st = kSuccess \<longrightarrow> bit s1 i)
             \<and> (bit s1 i \<and> \<not> bit s i \<longrightarrow> st = kSuccess)))
    \<and> (\<forall>e \<in> set ev1. \<exists>p. path_of e = i # p)"
  using assms
proof (cases rule: par_child_cases)
  case cached_success
  then show ?thesis by simp
next
  case cached_failure
  then show ?thesis by simp
next
  case null
  then show ?thesis by simp
next
  case (running c c' ev1')
  have "\<forall>e \<in> set (map (at_child i) ev1'). \<exists>p. path_of e = i # p"
  proof
    fix e assume "e \<in> set (map (at_child i) ev1')"
    then obtain e' where "e = at_child i e'" by auto
    then show "\<exists>p. path_of e = i # p" by (cases e') simp_all
  qed
  then show ?thesis using running Tick_child_ticks [OF running(3), of i] by simp
next
  case (success c c' ev1')
  have "\<forall>e \<in> set (map (at_child i) ev1'). \<exists>p. path_of e = i # p"
  proof
    fix e assume "e \<in> set (map (at_child i) ev1')"
    then obtain e' where "e = at_child i e'" by auto
    then show "\<exists>p. path_of e = i # p" by (cases e') simp_all
  qed
  then show ?thesis using success Tick_child_ticks [OF success(3), of i] assms(2)
    by (simp add: bit_mask_set)
next
  case (failure c c' ev1' st)
  have "\<forall>e \<in> set (map (at_child i) ev1'). \<exists>p. path_of e = i # p"
  proof
    fix e assume "e \<in> set (map (at_child i) ev1')"
    then obtain e' where "e = at_child i e'" by auto
    then show "\<exists>p. path_of e = i # p" by (cases e') simp_all
  qed
  then show ?thesis using failure Tick_child_ticks [OF failure(3), of i] assms(2)
    by (simp add: bit_mask_set)
qed

lemma par_loop_count:
  "par_loop Tick cs i d s (r, sc, f) ctx = ((r', sc', f'), d', s', cs', ctx', ev)
   \<Longrightarrow> i + length cs \<le> 32 \<Longrightarrow> (\<And>j. bit s j \<Longrightarrow> bit d j)
   \<Longrightarrow> r' = r + length (filter (\<lambda>j. \<not> bit d' j) [i ..< i + length cs])
     \<and> sc' = sc + length (filter (\<lambda>j. bit d' j \<and> bit s' j) [i ..< i + length cs])
     \<and> f' = f + length (filter (\<lambda>j. bit d' j \<and> \<not> bit s' j) [i ..< i + length cs])"
proof (induction cs arbitrary: i d s r sc f ctx cs' ev)
  case Nil
  then show ?case by simp
next
  case (Cons ch cs)
  have i: "i < 32" using Cons.prems(2) by simp
  from Cons.prems(1) show ?case
  proof (cases rule: par_loop_Cons)
    case (1 cnt1 d1 s1 ch1 ctx1 ev1 cs2 ev2)
    obtain r1 sc1 f1 where cnt1: "cnt1 = (r1, sc1, f1)" by (cases cnt1) auto
    have here: "r1 = r + (if \<not> bit d1 i then 1 else 0)
        \<and> sc1 = sc + (if bit d1 i \<and> bit s1 i then 1 else 0)
        \<and> f1 = f + (if bit d1 i \<and> \<not> bit s1 i then 1 else 0)"
      using par_child_count [OF 1(1) [unfolded cnt1] i] Cons.prems(3) by blast
    have inv1: "\<And>j. bit s1 j \<Longrightarrow> bit d1 j"
    proof -
      fix j assume a: "bit s1 j"
      show "bit d1 j"
      proof (cases "bit s j")
        case True
        then show ?thesis using par_child_bits(2) [OF 1(1) i] Cons.prems(3) by blast
      next
        case False
        then show ?thesis using par_child_bits(3) [OF 1(1) i a] by blast
      qed
    qed
    have rest: "r' = r1 + length (filter (\<lambda>j. \<not> bit d' j) [Suc i ..< Suc i + length cs])
        \<and> sc' = sc1 + length (filter (\<lambda>j. bit d' j \<and> bit s' j) [Suc i ..< Suc i + length cs])
        \<and> f' = f1 + length (filter (\<lambda>j. bit d' j \<and> \<not> bit s' j) [Suc i ..< Suc i + length cs])"
      using Cons.IH [OF 1(2) [unfolded cnt1] _ inv1] Cons.prems(2) by simp
    have final: "bit d' i = bit d1 i \<and> bit s' i = bit s1 i"
      using par_loop_bits_outside [OF 1(2), of i] Cons.prems(2) by simp
    have split: "[i ..< i + length (ch # cs)] = i # [Suc i ..< Suc i + length cs]"
      using upt_from [of i "length cs"] by simp
    show ?thesis unfolding split using here rest final by simp
  qed
qed

lemma in_upt: "j \<in> set [a ..< b] \<Longrightarrow> a \<le> j \<and> j < b"
  by simp

lemma par_loop_ticks:
  "par_loop Tick cs i d s cnt ctx = (cnt', d', s', cs', ctx', ev) \<Longrightarrow> i + length cs \<le> 32
   \<Longrightarrow> map fst (child_ticks ev) =
       filter (\<lambda>j. \<not> bit d j \<and> cs ! (j - i) \<noteq> None) [i ..< i + length cs]"
proof (induction cs arbitrary: i d s cnt ctx cs' ev cnt')
  case Nil
  then show ?case by simp
next
  case (Cons ch cs)
  have i: "i < 32" using Cons.prems(2) by simp
  from Cons.prems(1) show ?case
  proof (cases rule: par_loop_Cons)
    case (1 cnt1 d1 s1 ch1 ctx1 ev1 cs2 ev2)
    obtain r sc f where cnt: "cnt = (r, sc, f)" by (cases cnt) auto
    note body = par_child_ticks [OF 1(1) [unfolded cnt] i]
    have here: "map fst (child_ticks ev1) = (if \<not> bit d i \<and> ch \<noteq> None then [i] else [])"
      using body by auto
    have "map fst (child_ticks ev2) =
        filter (\<lambda>j. \<not> bit d1 j \<and> cs ! (j - Suc i) \<noteq> None) [Suc i ..< Suc i + length cs]"
      using Cons.IH [OF 1(2)] Cons.prems(2) by simp
    also have "\<dots> = filter (\<lambda>j. \<not> bit d j \<and> (ch # cs) ! (j - i) \<noteq> None)
        [Suc i ..< Suc i + length cs]"
    proof (rule filter_cong [OF refl])
      fix j assume "j \<in> set [Suc i ..< Suc i + length cs]"
      from in_upt [OF this] have j: "i < j" by linarith
      then have "bit d1 j = bit d j" using par_child_bits(1) [OF 1(1) i, of j] by simp
      moreover have "(ch # cs) ! (j - i) = cs ! (j - Suc i)" using j by (simp add: nth_Cons')
      ultimately show "(\<not> bit d1 j \<and> cs ! (j - Suc i) \<noteq> None)
          = (\<not> bit d j \<and> (ch # cs) ! (j - i) \<noteq> None)"
        by simp
    qed
    finally have rest: "map fst (child_ticks ev2) =
        filter (\<lambda>j. \<not> bit d j \<and> (ch # cs) ! (j - i) \<noteq> None) [Suc i ..< Suc i + length cs]" .
    have split: "[i ..< i + length (ch # cs)] = i # [Suc i ..< Suc i + length cs]"
      using upt_from [of i "length cs"] by simp
    show ?thesis unfolding split using here rest 1(4) by simp
  qed
qed

lemma par_loop_ticked:
  assumes "par_loop Tick cs i d s cnt ctx = (cnt', d', s', cs', ctx', ev)"
    and "i + length cs \<le> 32" and "(j, st) \<in> set (child_ticks ev)"
  shows "i \<le> j \<and> j < i + length cs \<and> \<not> bit d j \<and> cs ! (j - i) \<noteq> None"
proof -
  have "j \<in> set (map fst (child_ticks ev))" using assms(3) by force
  then have "j \<in> set (filter (\<lambda>j. \<not> bit d j \<and> cs ! (j - i) \<noteq> None) [i ..< i + length cs])"
    using par_loop_ticks [OF assms(1,2)] by simp
  then show ?thesis by simp
qed

lemma par_loop_tick_status:
  "par_loop Tick cs i d s cnt ctx = (cnt', d', s', cs', ctx', ev) \<Longrightarrow> i + length cs \<le> 32
   \<Longrightarrow> (j, st) \<in> set (child_ticks ev)
   \<Longrightarrow> (st = kRunning \<longleftrightarrow> \<not> bit d' j) \<and> (st = kSuccess \<longrightarrow> bit s' j)
       \<and> (bit s' j \<and> \<not> bit s j \<longrightarrow> st = kSuccess)"
proof (induction cs arbitrary: i d s cnt ctx cs' ev cnt')
  case Nil
  then show ?case by simp
next
  case (Cons ch cs)
  have i: "i < 32" using Cons.prems(2) by simp
  from Cons.prems(1) show ?case
  proof (cases rule: par_loop_Cons)
    case (1 cnt1 d1 s1 ch1 ctx1 ev1 cs2 ev2)
    obtain r sc f where cnt: "cnt = (r, sc, f)" by (cases cnt) auto
    note body = par_child_ticks [OF 1(1) [unfolded cnt] i]
    from Cons.prems(3) 1(4) consider
      (here) "(j, st) \<in> set (child_ticks ev1)" | (later) "(j, st) \<in> set (child_ticks ev2)"
      by auto
    then show ?thesis
    proof cases
      case here
      then have ne: "\<not> bit d i \<and> ch \<noteq> None" using body by auto
      then obtain st' where st': "child_ticks ev1 = [(i, st')]"
          "st' = kRunning \<longleftrightarrow> \<not> bit d1 i" "st' = kSuccess \<longrightarrow> bit s1 i"
          "bit s1 i \<and> \<not> bit s i \<longrightarrow> st' = kSuccess"
        using body by blast
      then have eq: "j = i" "st = st'" using here by auto
      have "bit d' i = bit d1 i \<and> bit s' i = bit s1 i"
        using par_loop_bits_outside [OF 1(2), of i] Cons.prems(2) by simp
      then show ?thesis using st' eq by simp
    next
      case later
      have "j \<noteq> i" using par_loop_ticked [OF 1(2) _ later] Cons.prems(2) by simp
      then have "bit s1 j = bit s j" using par_child_bits(1) [OF 1(1) i, of j] by simp
      then show ?thesis using Cons.IH [OF 1(2) _ later] Cons.prems(2) by simp
    qed
  qed
qed



lemma Tick_Parallel_unfold:
  assumes "type (members n) = kParallel" and "Tick n ctx = (st, n', ctx', ev)"
    and "d0 = (if status (members n) \<noteq> kRunning then 0 else child_done_bits (members n))"
    and "s0 = (if status (members n) \<noteq> kRunning then 0 else child_success_bits (members n))"
  obtains ctx0 ev0 cnt d1 s1 cs' ctx1 ev1 ev2 where
    "par_loop Tick (children n) 0 d0 s0 (0, 0, 0) ctx0 = (cnt, d1, s1, cs', ctx1, ev1)"
    "st = par_policy (success_policy (members n)) cnt"
    "children n' = cs'"
    "members n' = (members n)\<lparr>status := st, child_done_bits := d1, child_success_bits := s1\<rparr>"
    "(ctx0, ev0) = (if status (members n) \<noteq> kRunning then CallEnter n ctx else (ctx, []))"
    "(ctx', ev2) = (if st \<noteq> kRunning then CallExit n ctx1 else (ctx1, []))"
    "ev = ev0 @ ev1 @ ev2 @ [EvTick [] st]"
    "child_ticks ev = child_ticks ev1"
proof -
  obtain ctx0 ev0 where
    en: "(if status (members n) \<noteq> kRunning then CallEnter n ctx else (ctx, [])) = (ctx0, ev0)"
    by (cases "if status (members n) \<noteq> kRunning then CallEnter n ctx else (ctx, [])") auto
  obtain cnt d1 s1 cs' ctx1 ev1 where
    lp: "par_loop Tick (children n) 0 d0 s0 (0, 0, 0) ctx0 = (cnt, d1, s1, cs', ctx1, ev1)"
    by (cases "par_loop Tick (children n) 0 d0 s0 (0, 0, 0) ctx0") auto
  define st1 where "st1 = par_policy (success_policy (members n)) cnt"
  obtain ctx2 ev2 where
    ex: "(if st1 \<noteq> kRunning then CallExit n ctx1 else (ctx1, [])) = (ctx2, ev2)"
    by (cases "if st1 \<noteq> kRunning then CallExit n ctx1 else (ctx1, [])") auto
  have "Tick n ctx = (st1, Node ((members n)\<lparr>status := st1, child_done_bits := d1,
        child_success_bits := s1\<rparr>) cs', ctx2, (ev0 @ ev1 @ ev2) @ [EvTick [] st1])"
    using assms(1) en lp ex unfolding assms(3,4) st1_def
    by (simp add: Tick.simps [of n ctx] TickParallel_def Let_def split del: if_split cong: if_cong)
  with assms(2) have r: "st = st1"
      "n' = Node ((members n)\<lparr>status := st1, child_done_bits := d1,
        child_success_bits := s1\<rparr>) cs'"
      "ctx' = ctx2" "ev = ev0 @ ev1 @ ev2 @ [EvTick [] st1]"
    by auto
  have c0: "child_ticks ev0 = []"
    using en CallEnter_log [of n ctx ctx0 ev0] by (auto split: if_splits)
  have c2: "child_ticks ev2 = []"
    using ex CallExit_log [of n ctx1 ctx2 ev2] by (auto split: if_splits)
  show ?thesis
    using that [of ctx0 cnt d1 s1 cs' ctx1 ev1 ev0 ev2] r lp en ex c0 c2 st1_def by simp
qed

lemma CallEnter_paths: "CallEnter n ctx = (c, ev) \<Longrightarrow> e \<in> set ev \<Longrightarrow> e = EvEnter []"
  by (auto simp: CallEnter_def split: option.splits)





lemma filter_nonempty: "filter P [0 ..< k] \<noteq> [] \<longleftrightarrow> (\<exists>j<k. P j)"
proof -
  have "filter P [0 ..< k] \<noteq> [] \<longleftrightarrow> (\<exists>j \<in> set [0 ..< k]. P j)"
    by (simp only: filter_empty_conv) blast
  also have "\<dots> \<longleftrightarrow> (\<exists>j<k. P j)" by auto
  finally show ?thesis .
qed

text \<open>
  C6. One tick of a Parallel node with at most \<open>kMaxParallelChildren\<close> children;
  \<open>done_bits\<close> and \<open>success_bits\<close> are the two bitmaps when the call returns, so child
  \<open>j\<close> is done without success when its done bit is set and its success bit is not, has
  succeeded when both are set, and is still running when its done bit is clear. A child
  ticked by this call is still running exactly when it returned Running, and has
  succeeded exactly when it returned Success. Under RequireAll the call returns Failure
  if some child is done without success, Running if none is and some child is still
  running, and Success exactly when every child is done with success. Under RequireOne
  it returns Success if some child has succeeded, Running if none has and some child is
  still running, and Failure exactly when every child is done without success.
  The bitmaps are only read while the node is Running; the success bits are then
  assumed to lie within the done bits, as every tick leaves them (last conjunct).
\<close>

theorem Parallel_policy:
  assumes "type (members n) = kParallel"
    and "children_count n \<le> kMaxParallelChildren"
    and "status (members n) = kRunning \<longrightarrow>
         (\<forall>j. bit (child_success_bits (members n)) j \<longrightarrow> bit (child_done_bits (members n)) j)"
    and "Tick n ctx = (st, n', ctx', ev)"
    and "done_bits = child_done_bits (members n')"
    and "success_bits = child_success_bits (members n')"
    and "k = children_count n"
  shows "(\<forall>j s. (j, s) \<in> set (child_ticks ev) \<longrightarrow>
            (s = kRunning \<longleftrightarrow> \<not> bit done_bits j)
          \<and> (s = kSuccess \<longleftrightarrow> bit done_bits j \<and> bit success_bits j))
    \<and> (success_policy (members n) = kRequireAll
          \<and> (\<exists>j<k. bit done_bits j \<and> \<not> bit success_bits j) \<longrightarrow> st = kFailure)
    \<and> (success_policy (members n) = kRequireAll
          \<and> (\<forall>j<k. \<not> (bit done_bits j \<and> \<not> bit success_bits j))
          \<and> (\<exists>j<k. \<not> bit done_bits j) \<longrightarrow> st = kRunning)
    \<and> (success_policy (members n) = kRequireAll \<longrightarrow>
          (st = kSuccess \<longleftrightarrow> (\<forall>j<k. bit done_bits j \<and> bit success_bits j)))
    \<and> (success_policy (members n) = kRequireOne
          \<and> (\<exists>j<k. bit done_bits j \<and> bit success_bits j) \<longrightarrow> st = kSuccess)
    \<and> (success_policy (members n) = kRequireOne
          \<and> (\<forall>j<k. \<not> (bit done_bits j \<and> bit success_bits j))
          \<and> (\<exists>j<k. \<not> bit done_bits j) \<longrightarrow> st = kRunning)
    \<and> (success_policy (members n) = kRequireOne \<longrightarrow>
          (st = kFailure \<longleftrightarrow> (\<forall>j<k. bit done_bits j \<and> \<not> bit success_bits j)))
    \<and> (\<forall>j. bit success_bits j \<longrightarrow> bit done_bits j)"
proof -
  define d0 where "d0 = (if status (members n) \<noteq> kRunning then 0 else child_done_bits (members n))"
  define s0 where "s0 = (if status (members n) \<noteq> kRunning then 0 else child_success_bits (members n))"
  from Tick_Parallel_unfold [OF assms(1) assms(4) d0_def s0_def]
  obtain ctx0 cnt d1 s1 cs' ctx1 ev1 where
    lp: "par_loop Tick (children n) 0 d0 s0 (0, 0, 0) ctx0 = (cnt, d1, s1, cs', ctx1, ev1)"
    and st: "st = par_policy (success_policy (members n)) cnt"
    and mem: "members n' = (members n)\<lparr>status := st, child_done_bits := d1,
        child_success_bits := s1\<rparr>"
    and ct: "child_ticks ev = child_ticks ev1"
    by metis
  have bits: "done_bits = d1" "success_bits = s1" using assms(5,6) mem by simp_all
  have bound: "0 + length (children n) \<le> 32"
    using assms(2) by (simp add: children_count_def kMaxParallelChildren_def)
  have k: "length (children n) = k" using assms(7) by (simp add: children_count_def)
  have inv0: "\<And>j. bit s0 j \<Longrightarrow> bit d0 j"
    using assms(3) by (auto simp: d0_def s0_def split: if_splits)
  obtain r sc f where cnt: "cnt = (r, sc, f)" by (cases cnt) auto
  from par_loop_count [OF lp [unfolded cnt] bound inv0]
  have r: "0 < r \<longleftrightarrow> (\<exists>j<k. \<not> bit d1 j)"
    and sc: "0 < sc \<longleftrightarrow> (\<exists>j<k. bit d1 j \<and> bit s1 j)"
    and f: "0 < f \<longleftrightarrow> (\<exists>j<k. bit d1 j \<and> \<not> bit s1 j)"
    by (simp_all add: k filter_nonempty)
  have link: "(s = kRunning \<longleftrightarrow> \<not> bit d1 j) \<and> (s = kSuccess \<longleftrightarrow> bit d1 j \<and> bit s1 j)"
    if "(j, s) \<in> set (child_ticks ev)" for j s
  proof -
    have t: "(j, s) \<in> set (child_ticks ev1)" using that ct by simp
    have "\<not> bit d0 j" using par_loop_ticked [OF lp bound t] by simp
    then have "\<not> bit s0 j" using inv0 by blast
    then show ?thesis using par_loop_tick_status [OF lp bound t] by auto
  qed
  have inv1: "\<And>j. bit s1 j \<Longrightarrow> bit d1 j"
    using par_loop_bits_consistent [OF lp bound inv0] by blast
  have all: "success_policy (members n) = kRequireAll \<Longrightarrow>
      st = (if 0 < f then kFailure else if 0 < r then kRunning else kSuccess)"
    and one: "success_policy (members n) = kRequireOne \<Longrightarrow>
      st = (if 0 < sc then kSuccess else if 0 < r then kRunning else kFailure)"
    using st cnt by (simp_all add: par_policy_def)
  have a1: "st = kFailure"
    if "success_policy (members n) = kRequireAll" "\<exists>j<k. bit d1 j \<and> \<not> bit s1 j"
    using all that f by simp
  have a2: "st = kRunning"
    if "success_policy (members n) = kRequireAll" "\<forall>j<k. \<not> (bit d1 j \<and> \<not> bit s1 j)"
      "\<exists>j<k. \<not> bit d1 j"
    using all that f r by simp
  have a3: "st = kSuccess \<longleftrightarrow> (\<forall>j<k. bit d1 j \<and> bit s1 j)"
    if "success_policy (members n) = kRequireAll"
    using all [OF that] f r by (auto split: if_splits)
  have o1: "st = kSuccess"
    if "success_policy (members n) = kRequireOne" "\<exists>j<k. bit d1 j \<and> bit s1 j"
    using one that sc by simp
  have o2: "st = kRunning"
    if "success_policy (members n) = kRequireOne" "\<forall>j<k. \<not> (bit d1 j \<and> bit s1 j)"
      "\<exists>j<k. \<not> bit d1 j"
    using one that sc r by simp
  have o3: "st = kFailure \<longleftrightarrow> (\<forall>j<k. bit d1 j \<and> \<not> bit s1 j)"
    if "success_policy (members n) = kRequireOne"
    using one [OF that] sc r by (auto split: if_splits)
  show ?thesis unfolding bits
    using link a1 a2 a3 o1 o2 o3 inv1 by blast
qed

lemma ex_par_first:
  "Tick (ex_par kRequireAll) 0 =
     (kRunning,
      Node ((members (ex_par kRequireAll))\<lparr>status := kRunning, child_done_bits := 1,
              child_success_bits := 1\<rparr>)
        [Some (set_status kSuccess (ex_leaf kSuccess)), Some (set_status kRunning ex_slow)],
      2,
      [EvLeaf [0], EvTick [0] kSuccess, EvLeaf [1], EvTick [1] kRunning, EvTick [] kRunning])"
  by (simp add: ex_par_def ex_slow_def ex_defs tick_defs)

theorem Parallel_policy_witness:
  "type (members (ex_par kRequireAll)) = kParallel
   \<and> children_count (ex_par kRequireAll) = 2
   \<and> status (members (ex_par kRequireAll)) = kFailure
   \<and> success_policy (members (ex_par kRequireAll)) = kRequireAll
   \<and> fst (Tick (ex_par kRequireAll) 0) = kRunning
   \<and> child_ticks (snd (snd (snd (Tick (ex_par kRequireAll) 0)))) = [(0, kSuccess), (1, kRunning)]
   \<and> child_done_bits (members (fst (snd (Tick (ex_par kRequireAll) 0)))) = 1
   \<and> child_success_bits (members (fst (snd (Tick (ex_par kRequireAll) 0)))) = 1"
proof -
  have h1: "type (members (ex_par kRequireAll)) = kParallel"
    and c: "children_count (ex_par kRequireAll) = 2"
    and s: "status (members (ex_par kRequireAll)) = kFailure"
    and p: "success_policy (members (ex_par kRequireAll)) = kRequireAll"
    by (simp_all add: ex_par_def ex_defs children_count_def)
  have h2: "children_count (ex_par kRequireAll) \<le> kMaxParallelChildren"
    by (simp add: c kMaxParallelChildren_def)
  have h3: "status (members (ex_par kRequireAll)) = kRunning \<longrightarrow>
      (\<forall>j. bit (child_success_bits (members (ex_par kRequireAll))) j
         \<longrightarrow> bit (child_done_bits (members (ex_par kRequireAll))) j)"
    by (simp add: s)
  show ?thesis
    using Parallel_policy [OF h1 h2 h3 ex_par_first refl refl refl] h1 c s p
    by (simp add: ex_par_first)
qed









section \<open>Lifecycle callbacks\<close>

lemma seq_loop_paths:
  "seq_loop tk cs i ctx = (st, cur, cs', ctx', ev) \<Longrightarrow> e \<in> set ev \<Longrightarrow> path_of e \<noteq> []"
proof (induction cs arbitrary: i ctx st cur cs' ctx' ev)
  case Nil
  then show ?case by simp
next
  case (Cons ch cs)
  show ?case
  proof (cases ch)
    case None
    then show ?thesis using Cons.prems by simp
  next
    case (Some c)
    obtain s c' ctx1 ev1 where t: "tk c ctx = (s, c', ctx1, ev1)" by (cases "tk c ctx") auto
    obtain st2 cur2 cs2 ctx2 ev2 where r: "seq_loop tk cs (i + 1) ctx1 = (st2, cur2, cs2, ctx2, ev2)"
      by (cases "seq_loop tk cs (i + 1) ctx1") auto
    have a: "\<And>x. path_of (at_child i x) \<noteq> []" by (case_tac x) simp_all
    have "e \<in> at_child i ` set ev1 \<or> e \<in> set ev2"
      using Cons.prems Some t r by (auto split: if_splits)
    then show ?thesis using a Cons.IH [OF r] by auto
  qed
qed

lemma sel_loop_paths:
  "sel_loop tk cs i ctx = (st, cur, cs', ctx', ev) \<Longrightarrow> e \<in> set ev \<Longrightarrow> path_of e \<noteq> []"
proof (induction cs arbitrary: i ctx st cur cs' ctx' ev)
  case Nil
  then show ?case by simp
next
  case (Cons ch cs)
  show ?case
  proof (cases ch)
    case None
    then show ?thesis using Cons.prems by simp
  next
    case (Some c)
    obtain s c' ctx1 ev1 where t: "tk c ctx = (s, c', ctx1, ev1)" by (cases "tk c ctx") auto
    obtain st2 cur2 cs2 ctx2 ev2 where r: "sel_loop tk cs (i + 1) ctx1 = (st2, cur2, cs2, ctx2, ev2)"
      by (cases "sel_loop tk cs (i + 1) ctx1") auto
    have a: "\<And>x. path_of (at_child i x) \<noteq> []" by (case_tac x) simp_all
    have "e \<in> at_child i ` set ev1 \<or> e \<in> set ev2"
      using Cons.prems Some t r by (auto split: if_splits)
    then show ?thesis using a Cons.IH [OF r] by auto
  qed
qed

lemma par_child_paths:
  "par_child tk ch i d s cnt ctx = (cnt', d', s', ch', ctx', ev) \<Longrightarrow> e \<in> set ev
   \<Longrightarrow> path_of e \<noteq> []"
proof -
  assume a: "par_child tk ch i d s cnt ctx = (cnt', d', s', ch', ctx', ev)" and e: "e \<in> set ev"
  have p: "\<And>x. path_of (at_child i x) \<noteq> []" by (case_tac x) simp_all
  have "ev = [] \<or> (\<exists>ev1. ev = map (at_child i) ev1)"
    using a by (cases cnt; cases ch) (auto simp: par_child_def Let_def split: if_splits prod.splits)
  then show ?thesis using e p by auto
qed

lemma par_loop_paths:
  "par_loop tk cs i d s cnt ctx = (cnt', d', s', cs', ctx', ev) \<Longrightarrow> e \<in> set ev
   \<Longrightarrow> path_of e \<noteq> []"
proof (induction cs arbitrary: i d s cnt ctx cnt' d' s' cs' ctx' ev)
  case Nil
  then show ?case by simp
next
  case (Cons ch cs)
  obtain cnt1 d1 s1 ch1 ctx1 ev1 where
    b: "par_child tk ch i d s cnt ctx = (cnt1, d1, s1, ch1, ctx1, ev1)"
    by (cases "par_child tk ch i d s cnt ctx") auto
  obtain cnt2 d2 s2 cs2 ctx2 ev2 where
    r: "par_loop tk cs (i + 1) d1 s1 cnt1 ctx1 = (cnt2, d2, s2, cs2, ctx2, ev2)"
    by (cases "par_loop tk cs (i + 1) d1 s1 cnt1 ctx1") auto
  have "e \<in> set ev1 \<or> e \<in> set ev2" using Cons.prems b r by auto
  then show ?case using par_child_paths [OF b] Cons.IH [OF r] by auto
qed

lemma CallEnter_events:
  "CallEnter n ctx = (c, ev) \<Longrightarrow> ev = (if on_enter (members n) \<noteq> None then [EvEnter []] else [])"
  by (auto simp: CallEnter_def split: option.splits)

lemma CallExit_events:
  "CallExit n ctx = (c, ev) \<Longrightarrow> ev = (if on_exit (members n) \<noteq> None then [EvExit []] else [])"
  by (auto simp: CallExit_def split: option.splits)

lemma lifecycle_shapeI:
  assumes "(c0, ev0) = (if status (members n) \<noteq> kRunning then CallEnter n ctx else (ctx, []))"
    and "(c2, ev2) = (if st \<noteq> kRunning then CallExit n c1 else (c1, []))"
    and "\<And>e. e \<in> set work \<Longrightarrow> e = EvLeaf [] \<or> path_of e \<noteq> []"
  shows "lifecycle_shape n st (ev0 @ work @ ev2)"
proof -
  have "ev0 = (if status (members n) \<noteq> kRunning \<and> on_enter (members n) \<noteq> None
                    then [EvEnter []] else [])"
    using assms(1) CallEnter_events [of n ctx c0 ev0] by (auto split: if_splits)
  moreover have "ev2 = (if st \<noteq> kRunning \<and> on_exit (members n) \<noteq> None then [EvExit []] else [])"
    using assms(2) CallExit_events [of n c1 c2 ev2] by (auto split: if_splits)
  ultimately show ?thesis unfolding lifecycle_shape_def using assms(3) by blast
qed

lemma TickLeaf_shape:
  assumes "tick (members n) \<noteq> None" and "TickLeaf n ctx = (st, n', ctx', ev)"
  shows "lifecycle_shape n st ev"
proof -
  obtain f where f: "tick (members n) = Some f" using assms(1) by auto
  obtain c0 ev0 where en: "(c0, ev0) = (if status (members n) \<noteq> kRunning then CallEnter n ctx else (ctx, []))"
    by (metis surj_pair)
  obtain r c1 where t: "f c0 = (r, c1)" by (cases "f c0") auto
  obtain c2 ev2 where ex: "(c2, ev2) = (if r \<noteq> kRunning then CallExit n c1 else (c1, []))"
    by (metis surj_pair)
  have "TickLeaf n ctx = (r, set_status r n, c2, ev0 @ [EvLeaf []] @ ev2)"
    using f en [symmetric] t ex [symmetric]
    by (simp add: TickLeaf_def split del: if_split cong: if_cong)
  then have "st = r" "ev = ev0 @ [EvLeaf []] @ ev2" using assms(2) by auto
  then show ?thesis using lifecycle_shapeI [OF en ex, of "[EvLeaf []]"] by simp
qed

lemma TickSequence_shape:
  assumes "TickSequence tk n ctx = (st, n', ctx', ev)"
  shows "lifecycle_shape n st ev"
proof -
  define start where "start = (if status (members n) \<noteq> kRunning then 0 else current_child (members n))"
  obtain c0 ev0 where en: "(c0, ev0) = (if status (members n) \<noteq> kRunning then CallEnter n ctx else (ctx, []))"
    by (metis surj_pair)
  obtain r cur cs' c1 ev1 where lp: "seq_loop tk (drop start (children n)) start c0 = (r, cur, cs', c1, ev1)"
    by (cases "seq_loop tk (drop start (children n)) start c0") auto
  obtain c2 ev2 where ex: "(c2, ev2) = (if r \<noteq> kRunning then CallExit n c1 else (c1, []))"
    by (metis surj_pair)
  have "\<exists>m. TickSequence tk n ctx = (r, m, c2, ev0 @ ev1 @ ev2)"
    using en [symmetric] lp ex [symmetric] unfolding start_def
    by (simp add: TickSequence_def Let_def split del: if_split cong: if_cong)
  then have "st = r" "ev = ev0 @ ev1 @ ev2" using assms by auto
  then show ?thesis using lifecycle_shapeI [OF en ex, of ev1] seq_loop_paths [OF lp] by simp
qed

lemma TickSelector_shape:
  assumes "TickSelector tk n ctx = (st, n', ctx', ev)"
  shows "lifecycle_shape n st ev"
proof -
  define start where "start = (if status (members n) \<noteq> kRunning then 0 else current_child (members n))"
  obtain c0 ev0 where en: "(c0, ev0) = (if status (members n) \<noteq> kRunning then CallEnter n ctx else (ctx, []))"
    by (metis surj_pair)
  obtain r cur cs' c1 ev1 where lp: "sel_loop tk (drop start (children n)) start c0 = (r, cur, cs', c1, ev1)"
    by (cases "sel_loop tk (drop start (children n)) start c0") auto
  obtain c2 ev2 where ex: "(c2, ev2) = (if r \<noteq> kRunning then CallExit n c1 else (c1, []))"
    by (metis surj_pair)
  have "\<exists>m. TickSelector tk n ctx = (r, m, c2, ev0 @ ev1 @ ev2)"
    using en [symmetric] lp ex [symmetric] unfolding start_def
    by (simp add: TickSelector_def Let_def split del: if_split cong: if_cong)
  then have "st = r" "ev = ev0 @ ev1 @ ev2" using assms by auto
  then show ?thesis using lifecycle_shapeI [OF en ex, of ev1] sel_loop_paths [OF lp] by simp
qed

lemma TickParallel_shape:
  assumes "TickParallel tk n ctx = (st, n', ctx', ev)"
  shows "lifecycle_shape n st ev"
proof -
  define d0 where "d0 = (if status (members n) \<noteq> kRunning then 0 else child_done_bits (members n))"
  define s0 where "s0 = (if status (members n) \<noteq> kRunning then 0 else child_success_bits (members n))"
  obtain c0 ev0 where en: "(c0, ev0) = (if status (members n) \<noteq> kRunning then CallEnter n ctx else (ctx, []))"
    by (metis surj_pair)
  obtain cnt d1 s1 cs' c1 ev1 where
    lp: "par_loop tk (children n) 0 d0 s0 (0, 0, 0) c0 = (cnt, d1, s1, cs', c1, ev1)"
    by (cases "par_loop tk (children n) 0 d0 s0 (0, 0, 0) c0") auto
  define r where "r = par_policy (success_policy (members n)) cnt"
  obtain c2 ev2 where ex: "(c2, ev2) = (if r \<noteq> kRunning then CallExit n c1 else (c1, []))"
    by (metis surj_pair)
  have "\<exists>m. TickParallel tk n ctx = (r, m, c2, ev0 @ ev1 @ ev2)"
    using en [symmetric] lp ex [symmetric] unfolding d0_def s0_def r_def
    by (simp add: TickParallel_def Let_def split del: if_split cong: if_cong)
  then have "st = r" "ev = ev0 @ ev1 @ ev2" using assms by auto
  then show ?thesis using lifecycle_shapeI [OF en ex, of ev1] par_loop_paths [OF lp] by simp
qed

lemma TickInverter_shape:
  assumes "children_count n = 1" and "ChildAt n 0 \<noteq> None"
    and "TickInverter tk n ctx = (st, n', ctx', ev)"
  shows "lifecycle_shape n st ev"
proof -
  obtain child where ch: "ChildAt n 0 = Some child" using assms(2) by auto
  obtain c0 ev0 where en: "(c0, ev0) = (if status (members n) \<noteq> kRunning then CallEnter n ctx else (ctx, []))"
    by (metis surj_pair)
  obtain s child' c1 ev1 where t: "tk child c0 = (s, child', c1, ev1)" by (cases "tk child c0") auto
  define r where "r = (if s = kSuccess then kFailure else if s = kFailure then kSuccess else s)"
  obtain c2 ev2 where ex: "(c2, ev2) = (if r \<noteq> kRunning then CallExit n c1 else (c1, []))"
    by (metis surj_pair)
  have "\<exists>m. TickInverter tk n ctx = (r, m, c2, ev0 @ map (at_child 0) ev1 @ ev2)"
    using assms(1) ch en [symmetric] t ex [symmetric] unfolding r_def
    by (simp add: TickInverter_def Let_def split del: if_split cong: if_cong)
  then have "st = r" "ev = ev0 @ map (at_child 0) ev1 @ ev2" using assms(3) by auto
  moreover have "\<And>e. e \<in> set (map (at_child 0) ev1) \<Longrightarrow> path_of e \<noteq> []"
  proof -
    fix e assume "e \<in> set (map (at_child 0) ev1)"
    then obtain x where "e = at_child 0 x" by auto
    then show "path_of e \<noteq> []" by (cases x) simp_all
  qed
  ultimately show ?thesis using lifecycle_shapeI [OF en ex, of "map (at_child 0) ev1"] by simp
qed

text \<open>
  C3, as the code has it. A tick that passes the configuration guard of its node (a
  leaf with a bound tick callback, an inverter with exactly one non-null child, any
  sequence, selector or parallel node) logs: the on-enter callback first, if it is
  bound and the status before the tick is not Running; then the type-specific work
  (the leaf callback, or what the ticks of the children log), which holds no on-enter
  or on-exit of this node; then the on-exit callback, if it is bound and the result is
  not Running; then the return. So on a Running result on-exit is not invoked, and
  on-enter runs once per Running streak. A tick that fails the guard (unbound leaf
  callback, malformed inverter, unknown node type) returns Error and invokes neither
  callback.
\<close>

theorem Lifecycle_callbacks:
  assumes "Tick n ctx = (st, n', ctx', ev)"
  shows "(config_guard n \<longrightarrow>
            (\<exists>work. ev = (if status (members n) \<noteq> kRunning \<and> on_enter (members n) \<noteq> None
                           then [EvEnter []] else [])
                        @ work
                        @ (if st \<noteq> kRunning \<and> on_exit (members n) \<noteq> None
                           then [EvExit []] else [])
                        @ [EvTick [] st]
                 \<and> (\<forall>e \<in> set work. e = EvLeaf [] \<or> path_of e \<noteq> [])))
    \<and> (\<not> config_guard n \<longrightarrow> st = kError \<and> ev = [EvTick [] kError])"
proof -
  obtain r m c body where h: "(case type (members n) of
              kAction \<Rightarrow> TickLeaf n ctx
            | kCondition \<Rightarrow> TickLeaf n ctx
            | kSequence \<Rightarrow> TickSequence Tick n ctx
            | kSelector \<Rightarrow> TickSelector Tick n ctx
            | kParallel \<Rightarrow> TickParallel Tick n ctx
            | kInverter \<Rightarrow> TickInverter Tick n ctx
            | kOutOfRange \<Rightarrow> (kError, set_status kError n, ctx, [])) = (r, m, c, body)"
    by (metis surj_pair)
  then have "Tick n ctx = (r, m, c, body @ [EvTick [] r])"
    by (simp add: Tick.simps [of n ctx])
  then have eq: "st = r" "ev = body @ [EvTick [] st]" using assms by auto
  have pass: "lifecycle_shape n st body" if "config_guard n"
  proof (cases "type (members n)")
    case kAction
    then show ?thesis using that h eq TickLeaf_shape [of n ctx r m c body]
      by (simp add: config_guard_def)
  next
    case kCondition
    then show ?thesis using that h eq TickLeaf_shape [of n ctx r m c body]
      by (simp add: config_guard_def)
  next
    case kSequence
    then show ?thesis using h eq TickSequence_shape [of Tick n ctx r m c body] by simp
  next
    case kSelector
    then show ?thesis using h eq TickSelector_shape [of Tick n ctx r m c body] by simp
  next
    case kParallel
    then show ?thesis using h eq TickParallel_shape [of Tick n ctx r m c body] by simp
  next
    case kInverter
    then show ?thesis using that h eq TickInverter_shape [of n Tick ctx r m c body]
      by (simp add: config_guard_def)
  next
    case kOutOfRange
    then show ?thesis using that by (simp add: config_guard_def)
  qed
  have fail: "st = kError \<and> body = []" if "\<not> config_guard n"
  proof (cases "type (members n)")
    case kAction
    then show ?thesis using that h eq by (simp add: config_guard_def TickLeaf_def)
  next
    case kCondition
    then show ?thesis using that h eq by (simp add: config_guard_def TickLeaf_def)
  next
    case kSequence
    then show ?thesis using that by (simp add: config_guard_def)
  next
    case kSelector
    then show ?thesis using that by (simp add: config_guard_def)
  next
    case kParallel
    then show ?thesis using that by (simp add: config_guard_def)
  next
    case kInverter
    then show ?thesis using that h eq
      by (auto simp: config_guard_def TickInverter_def split: if_splits option.splits)
  next
    case kOutOfRange
    then show ?thesis using h eq by simp
  qed
  show ?thesis
  proof (intro conjI impI)
    assume "config_guard n"
    from pass [OF this] show "\<exists>work. ev = (if status (members n) \<noteq> kRunning \<and> on_enter (members n) \<noteq> None
                           then [EvEnter []] else [])
                        @ work
                        @ (if st \<noteq> kRunning \<and> on_exit (members n) \<noteq> None
                           then [EvExit []] else [])
                        @ [EvTick [] st]
                 \<and> (\<forall>e \<in> set work. e = EvLeaf [] \<or> path_of e \<noteq> [])"
      unfolding lifecycle_shape_def eq(2) by auto
  next
    assume "\<not> config_guard n"
    from fail [OF this] show "st = kError" by simp
  next
    assume "\<not> config_guard n"
    from fail [OF this] show "ev = [EvTick [] kError]" using eq by simp
  qed
qed

theorem Lifecycle_callbacks_witness:
  "config_guard ex_leaf_cb
   \<and> status (members ex_leaf_cb) = kFailure
   \<and> Tick ex_leaf_cb 0 =
       (kRunning, set_status kRunning ex_leaf_cb, 11, [EvEnter [], EvLeaf [], EvTick [] kRunning])
   \<and> Tick (set_status kRunning ex_leaf_cb) 100 =
       (kSuccess, set_status kSuccess ex_leaf_cb, 1101, [EvLeaf [], EvExit [], EvTick [] kSuccess])"
proof -
  have g: "config_guard ex_leaf_cb"
    by (simp add: config_guard_def ex_leaf_cb_def ex_defs)
  have s: "status (members ex_leaf_cb) = kFailure"
    by (simp add: ex_leaf_cb_def ex_defs)
  have t1: "Tick ex_leaf_cb 0 =
       (kRunning, set_status kRunning ex_leaf_cb, 11, [EvEnter [], EvLeaf [], EvTick [] kRunning])"
    by (simp add: ex_leaf_cb_def ex_defs tick_defs)
  have t2: "Tick (set_status kRunning ex_leaf_cb) 100 =
       (kSuccess, set_status kSuccess ex_leaf_cb, 1101, [EvLeaf [], EvExit [], EvTick [] kSuccess])"
    by (simp add: ex_leaf_cb_def ex_defs tick_defs)
  show ?thesis using Lifecycle_callbacks [OF t1] g s t1 t2 by simp
qed

text \<open>
  C3 as stated fails on a leaf with no tick callback: its status is not Running before
  the tick and the tick resolves to Error, yet neither bound lifecycle callback runs
  (the context is unchanged and the log holds the return only).
\<close>

theorem Lifecycle_skipped_on_unbound_leaf:
  "status (members ex_unbound_cb) = kFailure
   \<and> on_enter (members ex_unbound_cb) \<noteq> None
   \<and> on_exit (members ex_unbound_cb) \<noteq> None
   \<and> Tick ex_unbound_cb 0 = (kError, set_status kError ex_unbound_cb, 0, [EvTick [] kError])"
  by (simp add: ex_unbound_cb_def ex_defs tick_defs)

section \<open>Error and structural faults\<close>

lemma last_of_scan:
  assumes "(j, s) \<in> set ticks" and "\<And>k. Suc k < length ticks \<Longrightarrow> snd (ticks ! k) = good"
    and "s \<noteq> good"
  shows "ticks \<noteq> [] \<and> last ticks = (j, s)"
proof -
  obtain k where k: "k < length ticks" "ticks ! k = (j, s)"
    using assms(1) by (auto simp: in_set_conv_nth)
  have "\<not> Suc k < length ticks" using assms(2) [of k] k(2) assms(3) by auto
  then have e: "k = length ticks - 1" using k(1) by simp
  have ne: "ticks \<noteq> []" using k(1) by auto
  have "last ticks = ticks ! (length ticks - 1)" using ne by (rule last_conv_nth)
  then show ?thesis using k(2) e ne by simp
qed

text \<open>
  C1, as the code has it. When a child of a Sequence or of a Selector is ticked and
  returns Error, the composite returns Error on the same call, and that child is the
  last one ticked by the call. A Parallel node is not covered.
\<close>

theorem Error_short_circuits_Sequence_Selector:
  assumes "type (members n) = kSequence \<or> type (members n) = kSelector"
    and "Tick n ctx = (st, n', ctx', ev)"
    and "(j, kError) \<in> set (child_ticks ev)"
  shows "st = kError \<and> last (child_ticks ev) = (j, kError)"
  using assms(1)
proof
  assume t: "type (members n) = kSequence"
  from Tick_Sequence_unfold [OF t assms(2) refl]
  obtain ctx0 cur cs' ctx1 ev1 where
    lp: "seq_loop Tick
        (drop (if status (members n) \<noteq> kRunning then 0 else current_child (members n)) (children n))
        (if status (members n) \<noteq> kRunning then 0 else current_child (members n)) ctx0
        = (st, cur, cs', ctx1, ev1)"
    and ct: "child_ticks ev = child_ticks ev1"
    by metis
  have m: "(j, kError) \<in> set (child_ticks ev1)" using assms(3) ct by simp
  have l: "child_ticks ev1 \<noteq> [] \<and> last (child_ticks ev1) = (j, kError)"
    using last_of_scan [OF m seq_loop_only_last_not_success [OF lp]] by simp
  then have "st = kError" using seq_loop_last [OF lp] by simp
  then show ?thesis using l ct by simp
next
  assume t: "type (members n) = kSelector"
  from Tick_Selector_unfold [OF t assms(2) refl]
  obtain ctx0 cur cs' ctx1 ev1 where
    lp: "sel_loop Tick
        (drop (if status (members n) \<noteq> kRunning then 0 else current_child (members n)) (children n))
        (if status (members n) \<noteq> kRunning then 0 else current_child (members n)) ctx0
        = (st, cur, cs', ctx1, ev1)"
    and ct: "child_ticks ev = child_ticks ev1"
    by metis
  have m: "(j, kError) \<in> set (child_ticks ev1)" using assms(3) ct by simp
  have l: "child_ticks ev1 \<noteq> [] \<and> last (child_ticks ev1) = (j, kError)"
    using last_of_scan [OF m sel_loop_only_last_not_failure [OF lp]] by simp
  then have "st = kError" using sel_loop_last [OF lp] by simp
  then show ?thesis using l ct by simp
qed

lemma ex_seq_error_tick:
  "Tick ex_seq_error 0 =
     (kError,
      Node ((members ex_seq_error)\<lparr>status := kError, current_child := 1\<rparr>)
        [Some (set_status kSuccess (ex_leaf kSuccess)), Some (set_status kError (ex_leaf kError)),
         Some (ex_leaf kSuccess)],
      2,
      [EvLeaf [0], EvTick [0] kSuccess, EvLeaf [1], EvTick [1] kError, EvTick [] kError])"
  by (simp add: ex_seq_error_def ex_defs tick_defs)

theorem Error_short_circuits_Sequence_Selector_witness:
  "type (members ex_seq_error) = kSequence
   \<and> child_ticks (out_log (Tick ex_seq_error 0)) = [(0, kSuccess), (1, kError)]
   \<and> out_status (Tick ex_seq_error 0) = kError"
proof -
  have h1: "type (members ex_seq_error) = kSequence \<or> type (members ex_seq_error) = kSelector"
    and t: "type (members ex_seq_error) = kSequence"
    by (simp_all add: ex_seq_error_def ex_defs)
  have h3: "(1, kError) \<in> set (child_ticks
      [EvLeaf [0], EvTick [0] kSuccess, EvLeaf [1], EvTick [1] kError, EvTick [] kError])"
    by simp
  show ?thesis
    using Error_short_circuits_Sequence_Selector [OF h1 ex_seq_error_tick h3] t
    unfolding ex_seq_error_tick by simp
qed

text \<open>
  C1 as stated fails for a Parallel node: a child that returns Error is counted as a
  failed child. Under RequireAll the node returns Failure, and under RequireOne, next to
  a child that succeeds, it returns Success.
\<close>

theorem Parallel_does_not_propagate_Error:
  "type (members (ex_par_error kRequireAll)) = kParallel
   \<and> child_ticks (out_log (Tick (ex_par_error kRequireAll) 0)) = [(0, kError), (1, kSuccess)]
   \<and> out_status (Tick (ex_par_error kRequireAll) 0) = kFailure
   \<and> child_ticks (out_log (Tick (ex_par_error kRequireOne) 0)) = [(0, kError), (1, kSuccess)]
   \<and> out_status (Tick (ex_par_error kRequireOne) 0) = kSuccess"
  by (simp add: ex_par_error_def ex_defs tick_defs)

lemma par_loop_null:
  "par_loop Tick cs i d s cnt ctx = (cnt', d', s', cs', ctx', ev) \<Longrightarrow> i + length cs \<le> 32
   \<Longrightarrow> k < length cs \<Longrightarrow> cs ! k = None \<Longrightarrow> \<not> bit s (i + k)
   \<Longrightarrow> bit d' (i + k) \<and> \<not> bit s' (i + k)"
proof (induction cs arbitrary: i d s cnt ctx cs' ev cnt' k)
  case Nil
  then show ?case by simp
next
  case (Cons ch cs)
  have i: "i < 32" using Cons.prems(2) by simp
  from Cons.prems(1) show ?case
  proof (cases rule: par_loop_Cons)
    case (1 cnt1 d1 s1 ch1 ctx1 ev1 cs2 ev2)
    obtain r sc f where cnt: "cnt = (r, sc, f)" by (cases cnt) auto
    show ?thesis
    proof (cases k)
      case 0
      then have ch: "ch = None" using Cons.prems(4) by simp
      have "bit d1 i \<and> \<not> bit s1 i"
        using 1(1) [unfolded cnt] i
      proof (cases rule: par_child_cases)
        case cached_success
        then show ?thesis using Cons.prems(5) 0 by simp
      next
        case cached_failure
        then show ?thesis by simp
      next
        case null
        then show ?thesis using Cons.prems(5) 0 i by (simp add: bit_mask_set)
      next
        case (running c c' ev1)
        then show ?thesis using ch by simp
      next
        case (success c c' ev1)
        then show ?thesis using ch by simp
      next
        case (failure c c' ev1 st)
        then show ?thesis using ch by simp
      qed
      moreover have "bit d' i = bit d1 i \<and> bit s' i = bit s1 i"
        using par_loop_bits_outside [OF 1(2), of i] Cons.prems(2) by simp
      ultimately show ?thesis using 0 by simp
    next
      case (Suc k')
      have "\<not> bit s1 (i + 1 + k')"
        using par_child_bits(1) [OF 1(1) i, of "i + 1 + k'"] Cons.prems(5) Suc by simp
      from Cons.IH [OF 1(2) _ _ _ this] Cons.prems(2,3,4) Suc show ?thesis by simp
    qed
  qed
qed

text \<open>
  C2, as the code has it, for any tick of a node (\<open>start\<close> is where the scan of a
  sequence or selector starts). A leaf with no tick callback returns Error. An
  inverter whose child count is not one, or whose child is null, returns Error. A
  sequence returns Error when its scan reaches a null child, that is when every child
  from \<open>start\<close> up to it returned Success; a selector does when every child up to it
  returned Failure. A Parallel node (within the bitmap width, on a fresh entry) does
  not return Error for a null child: it marks the child done without success, and
  under RequireAll it returns Failure.
\<close>

theorem Faults_surface_at_tick:
  assumes "Tick n ctx = (st, n', ctx', ev)"
    and "start = (if status (members n) \<noteq> kRunning then 0 else current_child (members n))"
  shows "(IsLeafType (type (members n)) \<and> tick (members n) = None \<longrightarrow> st = kError)
    \<and> (type (members n) = kInverter \<and> (children_count n \<noteq> 1 \<or> ChildAt n 0 = None)
         \<longrightarrow> st = kError)
    \<and> (type (members n) = kSequence \<and> start \<le> k \<and> k < children_count n \<and> ChildAt n k = None
         \<and> (\<forall>j. start \<le> j \<and> j < k \<longrightarrow> (j, kSuccess) \<in> set (child_ticks ev))
         \<longrightarrow> st = kError)
    \<and> (type (members n) = kSelector \<and> start \<le> k \<and> k < children_count n \<and> ChildAt n k = None
         \<and> (\<forall>j. start \<le> j \<and> j < k \<longrightarrow> (j, kFailure) \<in> set (child_ticks ev))
         \<longrightarrow> st = kError)
    \<and> (type (members n) = kParallel \<and> children_count n \<le> kMaxParallelChildren
         \<and> status (members n) \<noteq> kRunning \<and> k < children_count n \<and> ChildAt n k = None
         \<longrightarrow> bit (child_done_bits (members n')) k
             \<and> \<not> bit (child_success_bits (members n')) k
             \<and> st \<noteq> kError
             \<and> (success_policy (members n) = kRequireAll \<longrightarrow> st = kFailure))"
proof (intro conjI impI)
  assume "IsLeafType (type (members n)) \<and> tick (members n) = None"
  then show "st = kError"
    using assms(1) by (auto simp: IsLeafType_def Tick.simps [of n ctx] TickLeaf_def)
next
  assume "type (members n) = kInverter \<and> (children_count n \<noteq> 1 \<or> ChildAt n 0 = None)"
  then show "st = kError"
    using assms(1) by (auto simp: Tick.simps [of n ctx] TickInverter_def split: if_splits)
next
  assume a: "type (members n) = kSequence \<and> start \<le> k \<and> k < children_count n \<and> ChildAt n k = None
         \<and> (\<forall>j. start \<le> j \<and> j < k \<longrightarrow> (j, kSuccess) \<in> set (child_ticks ev))"
  then have t: "type (members n) = kSequence" by simp
  from Tick_Sequence_unfold [OF t assms(1,2)]
  obtain ctx0 cur cs' ctx1 ev1 where
    lp: "seq_loop Tick (drop start (children n)) start ctx0 = (st, cur, cs', ctx1, ev1)"
    and ct: "child_ticks ev = child_ticks ev1"
    by metis
  have b: "start \<le> k" "k < length (children n)" "children n ! k = None"
    using a by (auto simp: ChildAt_def children_count_def)
  have 1: "k - start < length (drop start (children n))"
    using b by simp
  have 2: "drop start (children n) ! (k - start) = None"
    using b by simp
  show "st = kError"
  proof (rule seq_loop_null [OF lp 1 2])
    fix j assume "j < k - start"
    then show "(start + j, kSuccess) \<in> set (child_ticks ev1)" using a ct by simp
  qed
next
  assume a: "type (members n) = kSelector \<and> start \<le> k \<and> k < children_count n \<and> ChildAt n k = None
         \<and> (\<forall>j. start \<le> j \<and> j < k \<longrightarrow> (j, kFailure) \<in> set (child_ticks ev))"
  then have t: "type (members n) = kSelector" by simp
  from Tick_Selector_unfold [OF t assms(1,2)]
  obtain ctx0 cur cs' ctx1 ev1 where
    lp: "sel_loop Tick (drop start (children n)) start ctx0 = (st, cur, cs', ctx1, ev1)"
    and ct: "child_ticks ev = child_ticks ev1"
    by metis
  have b: "start \<le> k" "k < length (children n)" "children n ! k = None"
    using a by (auto simp: ChildAt_def children_count_def)
  have 1: "k - start < length (drop start (children n))"
    using b by simp
  have 2: "drop start (children n) ! (k - start) = None"
    using b by simp
  show "st = kError"
  proof (rule sel_loop_null [OF lp 1 2])
    fix j assume "j < k - start"
    then show "(start + j, kFailure) \<in> set (child_ticks ev1)" using a ct by simp
  qed
next
  assume a: "type (members n) = kParallel \<and> children_count n \<le> kMaxParallelChildren
         \<and> status (members n) \<noteq> kRunning \<and> k < children_count n \<and> ChildAt n k = None"
  then have t: "type (members n) = kParallel" by simp
  have z: "(0 :: 32 word) = (if status (members n) \<noteq> kRunning then 0 else child_done_bits (members n))"
    "(0 :: 32 word) = (if status (members n) \<noteq> kRunning then 0 else child_success_bits (members n))"
    using a by simp_all
  from Tick_Parallel_unfold [OF t assms(1) z]
  obtain ctx0 cnt d1 s1 cs' ctx1 ev1 where
    lp: "par_loop Tick (children n) 0 0 0 (0, 0, 0) ctx0 = (cnt, d1, s1, cs', ctx1, ev1)"
    and st: "st = par_policy (success_policy (members n)) cnt"
    and mem: "members n' = (members n)\<lparr>status := st, child_done_bits := d1,
        child_success_bits := s1\<rparr>"
    by metis
  have bound: "0 + length (children n) \<le> 32"
    using a by (simp add: children_count_def kMaxParallelChildren_def)
  have k: "k < length (children n)" "children n ! k = None"
    using a by (auto simp: ChildAt_def children_count_def)
  have bits: "bit d1 k \<and> \<not> bit s1 k"
    using par_loop_null [OF lp bound k, of ] by simp
  obtain r sc f where cnt: "cnt = (r, sc, f)" by (cases cnt) auto
  have "f = 0 + length (filter (\<lambda>j. bit d1 j \<and> \<not> bit s1 j) [0 ..< 0 + length (children n)])"
    using par_loop_count [OF lp [unfolded cnt] bound] by simp
  then have f: "0 < f" using bits k(1) by (simp add: filter_nonempty) blast
  have ne: "st \<noteq> kError" using st cnt by (simp add: par_policy_def)
  have all: "success_policy (members n) = kRequireAll \<longrightarrow> st = kFailure"
    using st cnt f by (simp add: par_policy_def)
  show "bit (child_done_bits (members n')) k" using bits mem by simp
  show "\<not> bit (child_success_bits (members n')) k" using bits mem by simp
  show "st \<noteq> kError" by (rule ne)
  show "success_policy (members n) = kRequireAll \<Longrightarrow> st = kFailure" using all by simp
qed

lemma ex_seq_null_tick:
  "Tick ex_seq_null 0 =
     (kError,
      Node ((members ex_seq_null)\<lparr>status := kError, current_child := 0\<rparr>)
        [Some (set_status kSuccess (ex_leaf kSuccess)), None],
      1,
      [EvLeaf [0], EvTick [0] kSuccess, EvTick [] kError])"
  by (simp add: ex_defs tick_defs)

theorem Faults_surface_at_tick_witness:
  "type (members ex_seq_null) = kSequence
   \<and> status (members ex_seq_null) = kFailure
   \<and> ChildAt ex_seq_null 1 = None
   \<and> child_ticks (out_log (Tick ex_seq_null 0)) = [(0, kSuccess)]
   \<and> out_status (Tick ex_seq_null 0) = kError"
proof -
  have t: "type (members ex_seq_null) = kSequence"
    and s: "status (members ex_seq_null) = kFailure"
    and c: "children_count ex_seq_null = 2"
    and z: "ChildAt ex_seq_null 1 = None"
    by (simp_all add: ex_defs ChildAt_def children_count_def)
  have h2: "0 = (if status (members ex_seq_null) \<noteq> kRunning then 0
      else current_child (members ex_seq_null))"
    by (simp add: s)
  show ?thesis
    using Faults_surface_at_tick [OF ex_seq_null_tick h2, where k = 1] t s c z
    unfolding ex_seq_null_tick by simp
qed

text \<open>
  C2 as stated fails for a Parallel node that holds a null child reference, a fault
  that \<^verbatim>\<open>Validate\<close> reports: the tick returns Failure, not Error.
\<close>

theorem Parallel_null_child_is_Failure:
  "type (members ex_par_null) = kParallel
   \<and> ChildAt ex_par_null 1 = None
   \<and> Validate 8 ex_par_null = kNullChild
   \<and> out_status (Tick ex_par_null 0) = kFailure"
  by (simp add: ex_par_null_def ex_defs tick_defs Validate_def IsLeafType_def)

end
